theory Spec2Isabelle
  imports Main "HOL-Library.Word"
begin

unbundle bit_operations_syntax

section \<open>SHA-256 / SHA-224 of hash-wasm (sha256.c): the program\<close>

text \<open>
  The embedding follows \<^verbatim>\<open>packages/hub/src/vendor/hash-wasm/sha256.c\<close>. The C integers
  are machine words (\<open>+\<close> wraps). The target is wasm32, which is little-endian: a
  \<^verbatim>\<open>uint32_t\<close> read through a \<^verbatim>\<open>uint8_t*\<close> shows its least significant byte first, and the
  source relies on it (\<^verbatim>\<open>bswap_32\<close> in the rounds, the shifts of \<^verbatim>\<open>Hash_Final\<close>).
\<close>

type_synonym uint8_t = "8 word"
type_synonym uint32_t = "32 word"
type_synonym uint64_t = "64 word"

subsection \<open>Bytes and words in little-endian memory\<close>

text \<open>The byte at offset \<open>k\<close> (0..3) of a 32-bit word in memory.\<close>

definition byte_of :: "uint32_t \<Rightarrow> nat \<Rightarrow> uint8_t" where
  "byte_of w k = ucast (drop_bit (8 * k) w)"

text \<open>The four bytes of a word, in memory order, and the word read from four bytes.\<close>

definition le_bytes :: "uint32_t \<Rightarrow> uint8_t list" where
  "le_bytes w = map (byte_of w) [0, 1, 2, 3]"

definition le_word :: "uint8_t list \<Rightarrow> uint32_t" where
  "le_word bs = ucast (bs ! 0) OR push_bit 8 (ucast (bs ! 1))
                OR push_bit 16 (ucast (bs ! 2)) OR push_bit 24 (ucast (bs ! 3))"

text \<open>A \<^verbatim>\<open>uint32_t\<close> array seen through a \<^verbatim>\<open>uint8_t*\<close>, and a byte buffer seen through
  a \<^verbatim>\<open>uint32_t*\<close> (the cast \<^verbatim>\<open>(uint32_t*)msg\<close> of \<^verbatim>\<open>Hash_Update\<close>).\<close>

definition bytes_of_words :: "uint32_t list \<Rightarrow> uint8_t list" where
  "bytes_of_words ws = concat (map le_bytes ws)"

fun words_of_bytes :: "uint8_t list \<Rightarrow> uint32_t list" where
  "words_of_bytes (b0 # b1 # b2 # b3 # bs) = le_word [b0, b1, b2, b3] # words_of_bytes bs"
| "words_of_bytes bs = []"

text \<open>The store \<^verbatim>\<open>*(p + k) = b\<close> through \<^verbatim>\<open>uint8_t* p = (uint8_t*)ws\<close>: it replaces byte
  \<open>k mod 4\<close> of word \<open>k div 4\<close>.\<close>

definition store8 :: "uint32_t list \<Rightarrow> nat \<Rightarrow> uint8_t \<Rightarrow> uint32_t list" where
  "store8 ws k b =
     ws[k div 4 := (ws ! (k div 4) AND NOT (push_bit (8 * (k mod 4)) (mask 8)))
                   OR push_bit (8 * (k mod 4)) (ucast b)]"

subsection \<open>Constants and macros\<close>

definition MAIN_BUFFER_SIZE :: nat where
  "MAIN_BUFFER_SIZE = 8 * 1024 * 1024"

definition sha256_block_size :: uint32_t where "sha256_block_size = 64"
definition sha256_hash_size :: uint32_t where "sha256_hash_size = 32"
definition sha224_hash_size :: uint32_t where "sha224_hash_size = 28"

definition ROTR32 :: "uint32_t \<Rightarrow> nat \<Rightarrow> uint32_t" where
  "ROTR32 dword n = drop_bit n dword XOR push_bit (32 - n) dword"

text \<open>\<^verbatim>\<open>__builtin_bswap32\<close>: the compiler builtin that reverses the four bytes of a word.\<close>

definition bswap_32 :: "uint32_t \<Rightarrow> uint32_t" where
  "bswap_32 x = push_bit 24 x OR push_bit 8 (x AND 0xFF00)
                OR (drop_bit 8 x AND 0xFF00) OR drop_bit 24 x"

record sha256_ctx =
  message :: "uint32_t list"    \<comment> \<open>\<^verbatim>\<open>uint32_t message[16]\<close>: 512-bit buffer for leftovers\<close>
  length_bytes :: uint64_t      \<comment> \<open>\<^verbatim>\<open>uint64_t length\<close>: number of processed bytes\<close>
  hash :: "uint32_t list"       \<comment> \<open>\<^verbatim>\<open>uint32_t hash[8]\<close>: internal hashing state\<close>
  digest_length :: uint32_t     \<comment> \<open>length of the algorithm digest in bytes\<close>

definition rhash_k256 :: "uint32_t list" where
  "rhash_k256 = [
    0x428A2F98, 0x71374491, 0xB5C0FBCF, 0xE9B5DBA5, 0x3956C25B, 0x59F111F1,
    0x923F82A4, 0xAB1C5ED5, 0xD807AA98, 0x12835B01, 0x243185BE, 0x550C7DC3,
    0x72BE5D74, 0x80DEB1FE, 0x9BDC06A7, 0xC19BF174, 0xE49B69C1, 0xEFBE4786,
    0x0FC19DC6, 0x240CA1CC, 0x2DE92C6F, 0x4A7484AA, 0x5CB0A9DC, 0x76F988DA,
    0x983E5152, 0xA831C66D, 0xB00327C8, 0xBF597FC7, 0xC6E00BF3, 0xD5A79147,
    0x06CA6351, 0x14292967, 0x27B70A85, 0x2E1B2138, 0x4D2C6DFC, 0x53380D13,
    0x650A7354, 0x766A0ABB, 0x81C2C92E, 0x92722C85, 0xA2BFE8A1, 0xA81A664B,
    0xC24B8B70, 0xC76C51A3, 0xD192E819, 0xD6990624, 0xF40E3585, 0x106AA070,
    0x19A4C116, 0x1E376C08, 0x2748774C, 0x34B0BCB5, 0x391C0CB3, 0x4ED8AA4A,
    0x5B9CCA4F, 0x682E6FF3, 0x748F82EE, 0x78A5636F, 0x84C87814, 0x8CC70208,
    0x90BEFFFA, 0xA4506CEB, 0xBEF9A3F7, 0xC67178F2]"

definition Ch :: "uint32_t \<Rightarrow> uint32_t \<Rightarrow> uint32_t \<Rightarrow> uint32_t" where
  "Ch x y z = z XOR (x AND (y XOR z))"

definition Maj :: "uint32_t \<Rightarrow> uint32_t \<Rightarrow> uint32_t \<Rightarrow> uint32_t" where
  "Maj x y z = (x AND y) XOR (z AND (x XOR y))"

definition Sigma0 :: "uint32_t \<Rightarrow> uint32_t" where
  "Sigma0 x = ROTR32 x 2 XOR ROTR32 x 13 XOR ROTR32 x 22"

definition Sigma1 :: "uint32_t \<Rightarrow> uint32_t" where
  "Sigma1 x = ROTR32 x 6 XOR ROTR32 x 11 XOR ROTR32 x 25"

definition sigma0 :: "uint32_t \<Rightarrow> uint32_t" where
  "sigma0 x = ROTR32 x 7 XOR ROTR32 x 18 XOR drop_bit 3 x"

definition sigma1 :: "uint32_t \<Rightarrow> uint32_t" where
  "sigma1 x = ROTR32 x 17 XOR ROTR32 x 19 XOR drop_bit 10 x"

text \<open>
  \<^verbatim>\<open>RECALCULATE_W(W, n)\<close> is the compound assignment \<^verbatim>\<open>W[n] += ...\<close> on the circular
  buffer; \<open>n\<close> is a C \<^verbatim>\<open>int\<close>, so \<^verbatim>\<open>(n - 2) & 15\<close> is taken on a possibly negative integer.
  The macro's value is the new \<^verbatim>\<open>W[n]\<close>.
\<close>

definition RECALCULATE_W :: "uint32_t list \<Rightarrow> int \<Rightarrow> uint32_t list" where
  "RECALCULATE_W W n =
     W[nat n := W ! nat n +
        (sigma1 (W ! nat ((n - 2) AND 15)) + W ! nat ((n - 7) AND 15)
         + sigma0 (W ! nat ((n - 15) AND 15)))]"

text \<open>
  The working variables of \<^verbatim>\<open>sha256_process_block\<close>. The macro \<^verbatim>\<open>ROUND\<close> receives the
  \<^emph>\<open>names\<close> of the eight variables, in an order that rotates from line to line, and
  assigns to the two it is given as \<^verbatim>\<open>d\<close> and \<^verbatim>\<open>h\<close>; so the model passes names, and the
  variables are a valuation of the names.
\<close>

datatype var = A | B | C | D | E | F | G | H

record locals =
  vars :: "var \<Rightarrow> uint32_t"
  W :: "uint32_t list"          \<comment> \<open>\<^verbatim>\<open>uint32_t W[16]\<close>\<close>

definition ROUND ::
  "var \<Rightarrow> var \<Rightarrow> var \<Rightarrow> var \<Rightarrow> var \<Rightarrow> var \<Rightarrow> var \<Rightarrow> var \<Rightarrow> uint32_t \<Rightarrow> uint32_t
   \<Rightarrow> (var \<Rightarrow> uint32_t) \<Rightarrow> (var \<Rightarrow> uint32_t)" where
  "ROUND a b c d e f g h k data v =
     (let T1 = v h + Sigma1 (v e) + Ch (v e) (v f) (v g) + k + data;
          v = v(d := v d + T1);
          v = v(h := T1 + Sigma0 (v a) + Maj (v a) (v b) (v c))
      in v)"

definition ROUND_1_16 ::
  "var \<Rightarrow> var \<Rightarrow> var \<Rightarrow> var \<Rightarrow> var \<Rightarrow> var \<Rightarrow> var \<Rightarrow> var \<Rightarrow> int \<Rightarrow> uint32_t list
   \<Rightarrow> locals \<Rightarrow> locals" where
  "ROUND_1_16 a b c d e f g h n block s =
     (let s = s\<lparr>W := (W s)[nat n := bswap_32 (block ! nat n)]\<rparr>
      in s\<lparr>vars := ROUND a b c d e f g h (rhash_k256 ! nat n) (W s ! nat n) (vars s)\<rparr>)"

definition ROUND_17_64 ::
  "var \<Rightarrow> var \<Rightarrow> var \<Rightarrow> var \<Rightarrow> var \<Rightarrow> var \<Rightarrow> var \<Rightarrow> var \<Rightarrow> int \<Rightarrow> uint32_t list
   \<Rightarrow> locals \<Rightarrow> locals" where
  "ROUND_17_64 a b c d e f g h n k s =
     (let s = s\<lparr>W := RECALCULATE_W (W s) n\<rparr>
      in s\<lparr>vars := ROUND a b c d e f g h (k ! nat n) (W s ! nat n) (vars s)\<rparr>)"

text \<open>A sequence of statements, run in order.\<close>

definition run :: "('s \<Rightarrow> 's) list \<Rightarrow> 's \<Rightarrow> 's" where
  "run stmts s = fold (\<lambda>stmt. stmt) stmts s"

subsection \<open>Initialisation\<close>

definition SHA256_H0 :: "uint32_t list" where
  "SHA256_H0 = [0x6a09e667, 0xbb67ae85, 0x3c6ef372, 0xa54ff53a,
                0x510e527f, 0x9b05688c, 0x1f83d9ab, 0x5be0cd19]"

definition SHA224_H0 :: "uint32_t list" where
  "SHA224_H0 = [0xc1059ed8, 0x367cd507, 0x3070dd17, 0xf70e5939,
                0xffc00b31, 0x68581511, 0x64f98fa7, 0xbefa4fa4]"

text \<open>Both initialisers leave \<^verbatim>\<open>ctx->message\<close> as it is; the loop copies the eight words
  of the table into \<^verbatim>\<open>ctx->hash\<close>, two at a time.\<close>

definition sha256_init :: "sha256_ctx \<Rightarrow> sha256_ctx" where
  "sha256_init ctx =
     (let ctx = ctx\<lparr>length_bytes := 0\<rparr>;
          ctx = ctx\<lparr>digest_length := sha256_hash_size\<rparr>
      in fold (\<lambda>i ctx. ctx\<lparr>hash := (hash ctx)[i := SHA256_H0 ! i, i + 1 := SHA256_H0 ! (i + 1)]\<rparr>)
           [0, 2, 4, 6] ctx)"

definition sha224_init :: "sha256_ctx \<Rightarrow> sha256_ctx" where
  "sha224_init ctx =
     (let ctx = ctx\<lparr>length_bytes := 0\<rparr>;
          ctx = ctx\<lparr>digest_length := sha224_hash_size\<rparr>
      in fold (\<lambda>i ctx. ctx\<lparr>hash := (hash ctx)[i := SHA224_H0 ! i, i + 1 := SHA224_H0 ! (i + 1)]\<rparr>)
           [0, 2, 4, 6] ctx)"

text \<open>\<^verbatim>\<open>Hash_Init\<close> returns the new context and the C return value.\<close>

definition Hash_Init :: "uint32_t \<Rightarrow> sha256_ctx \<Rightarrow> sha256_ctx \<times> uint32_t" where
  "Hash_Init bits ctx = (if bits = 224 then (sha224_init ctx, 0) else (sha256_init ctx, 0))"

text \<open>The static \<^verbatim>\<open>sctx\<close> as the C runtime zero-initialises it.\<close>

definition sctx :: sha256_ctx where
  "sctx = \<lparr>message = replicate 16 0, length_bytes = 0, hash = replicate 8 0, digest_length = 0\<rparr>"

subsection \<open>The core transformation\<close>

definition rounds_1_16 :: "uint32_t list \<Rightarrow> locals \<Rightarrow> locals" where
  "rounds_1_16 block = run [
     ROUND_1_16 A B C D E F G H 0 block,
     ROUND_1_16 H A B C D E F G 1 block,
     ROUND_1_16 G H A B C D E F 2 block,
     ROUND_1_16 F G H A B C D E 3 block,
     ROUND_1_16 E F G H A B C D 4 block,
     ROUND_1_16 D E F G H A B C 5 block,
     ROUND_1_16 C D E F G H A B 6 block,
     ROUND_1_16 B C D E F G H A 7 block,
     ROUND_1_16 A B C D E F G H 8 block,
     ROUND_1_16 H A B C D E F G 9 block,
     ROUND_1_16 G H A B C D E F 10 block,
     ROUND_1_16 F G H A B C D E 11 block,
     ROUND_1_16 E F G H A B C D 12 block,
     ROUND_1_16 D E F G H A B C 13 block,
     ROUND_1_16 C D E F G H A B 14 block,
     ROUND_1_16 B C D E F G H A 15 block]"

definition rounds_17_64 :: "uint32_t list \<Rightarrow> locals \<Rightarrow> locals" where
  "rounds_17_64 k = run [
     ROUND_17_64 A B C D E F G H 0 k,
     ROUND_17_64 H A B C D E F G 1 k,
     ROUND_17_64 G H A B C D E F 2 k,
     ROUND_17_64 F G H A B C D E 3 k,
     ROUND_17_64 E F G H A B C D 4 k,
     ROUND_17_64 D E F G H A B C 5 k,
     ROUND_17_64 C D E F G H A B 6 k,
     ROUND_17_64 B C D E F G H A 7 k,
     ROUND_17_64 A B C D E F G H 8 k,
     ROUND_17_64 H A B C D E F G 9 k,
     ROUND_17_64 G H A B C D E F 10 k,
     ROUND_17_64 F G H A B C D E 11 k,
     ROUND_17_64 E F G H A B C D 12 k,
     ROUND_17_64 D E F G H A B C 13 k,
     ROUND_17_64 C D E F G H A B 14 k,
     ROUND_17_64 B C D E F G H A 15 k]"

text \<open>The loop \<^verbatim>\<open>for (i = 16, k = &rhash_k256[16]; i < 64; i += 16, k += 16)\<close>; the pointer
  \<open>k\<close> is the rest of the table from its position on.\<close>

function rounds_loop :: "int \<Rightarrow> uint32_t list \<Rightarrow> locals \<Rightarrow> locals" where
  "rounds_loop i k s =
     (if i < 64 then rounds_loop (i + 16) (drop 16 k) (rounds_17_64 k s) else s)"
  by pat_completeness auto
termination
  by (relation "measure (\<lambda>(i, k, s). nat (64 - i))") auto

text \<open>
  \<^verbatim>\<open>W\<close> and the eight variables are uninitialised locals. The variables are all
  assigned first; each of the sixteen elements of \<^verbatim>\<open>W\<close> is assigned in rounds 1 to 16
  before it is read. \<open>sha256_process_block_from\<close> is the function with the content
  \<open>W0\<close> that \<^verbatim>\<open>W\<close> happens to have on entry as a parameter, and the model of the
  function starts it from zeros; the result does not depend on it (lemma
  \<open>sha256_process_block_from_any\<close> below).
\<close>

definition sha256_process_block_from ::
  "uint32_t list \<Rightarrow> uint32_t list \<Rightarrow> uint32_t list \<Rightarrow> uint32_t list" where
  "sha256_process_block_from W0 hash_in block =
     (let s = \<lparr>vars = (\<lambda>_. 0), W = W0\<rparr>;
          s = s\<lparr>vars := (vars s)(A := hash_in ! 0, B := hash_in ! 1, C := hash_in ! 2,
                                  D := hash_in ! 3, E := hash_in ! 4, F := hash_in ! 5,
                                  G := hash_in ! 6, H := hash_in ! 7)\<rparr>;
          s = rounds_1_16 block s;
          s = rounds_loop 16 (drop 16 rhash_k256) s
      in [hash_in ! 0 + vars s A, hash_in ! 1 + vars s B, hash_in ! 2 + vars s C,
          hash_in ! 3 + vars s D, hash_in ! 4 + vars s E, hash_in ! 5 + vars s F,
          hash_in ! 6 + vars s G, hash_in ! 7 + vars s H])"

definition sha256_process_block :: "uint32_t list \<Rightarrow> uint32_t list \<Rightarrow> uint32_t list" where
  "sha256_process_block hash_in block = sha256_process_block_from (replicate 16 0) hash_in block"

subsection \<open>Absorbing input\<close>

text \<open>
  \<^verbatim>\<open>Hash_Update(size)\<close> reads its input from the start of \<^verbatim>\<open>main_buffer\<close>, where the host
  has written it; the model receives the buffer's contents \<open>msg\<close> and the argument
  \<open>sz\<close> (the source's \<^verbatim>\<open>size\<close>); the buffer holds \<open>sz\<close> bytes when \<open>sz \<le> MAIN_BUFFER_SIZE\<close>. \<^verbatim>\<open>msg += n\<close> is \<open>drop n\<close>.
\<close>

text \<open>The loop \<^verbatim>\<open>for (uint8_t i = 0; i < n; i++) *(message8 + index + i) = msg[i]\<close>; in both
  its uses \<open>n < 64\<close>, so the 8-bit counter does not wrap.\<close>

definition copy_bytes :: "uint32_t list \<Rightarrow> nat \<Rightarrow> uint8_t list \<Rightarrow> nat \<Rightarrow> uint32_t list" where
  "copy_bytes message8 index msg n =
     fold (\<lambda>i m. store8 m (index + i) (msg ! i)) [0..<n] message8"

text \<open>The loop \<^verbatim>\<open>while (size >= sha256_block_size)\<close> over the blocks that are processed
  in place; it returns the advanced pointer, the remaining size and the hash.\<close>

function process_blocks ::
  "uint8_t list \<Rightarrow> uint32_t \<Rightarrow> uint32_t list \<Rightarrow> uint8_t list \<times> uint32_t \<times> uint32_t list" where
  "process_blocks msg sz h =
     (if sz \<ge> sha256_block_size
      then process_blocks (drop 64 msg) (sz - sha256_block_size)
             (sha256_process_block h (words_of_bytes (take 64 msg)))
      else (msg, sz, h))"
  by pat_completeness auto
termination
  by (relation "measure (\<lambda>(msg, sz, h). unat sz)")
     (auto simp: sha256_block_size_def unat_sub word_le_nat_alt)

text \<open>Lines 352 to 365 of the source: the block loop and the leftovers.\<close>

definition Hash_Update_rest :: "uint8_t list \<Rightarrow> uint32_t \<Rightarrow> sha256_ctx \<Rightarrow> sha256_ctx" where
  "Hash_Update_rest msg sz ctx =
     (case process_blocks msg sz (hash ctx) of (msg, sz, h) \<Rightarrow>
        let ctx = ctx\<lparr>hash := h\<rparr>
        in if sz \<noteq> 0
           then ctx\<lparr>message := copy_bytes (message ctx) 0 msg (unat sz)\<rparr>
           else ctx)"

definition Hash_Update :: "uint8_t list \<Rightarrow> uint32_t \<Rightarrow> sha256_ctx \<Rightarrow> sha256_ctx" where
  "Hash_Update main_buffer sz ctx =
     (let msg = main_buffer;
          index = (ucast (length_bytes ctx) :: uint32_t) AND 63;
          ctx = ctx\<lparr>length_bytes := length_bytes ctx + ucast sz\<rparr>
      in if index \<noteq> 0
         then
           (let left = sha256_block_size - index;
                end = (if sz < left then sz else left);
                ctx = ctx\<lparr>message := copy_bytes (message ctx) (unat index) msg (unat end)\<rparr>
            in if sz < left then ctx
               else
                 (let ctx = ctx\<lparr>hash := sha256_process_block (hash ctx) (message ctx)\<rparr>
                  in Hash_Update_rest (drop (unat left) msg) (sz - left) ctx))
         else Hash_Update_rest msg sz ctx)"

subsection \<open>Finalisation\<close>

text \<open>The loops \<^verbatim>\<open>while (index < n) ctx->message[index++] = 0\<close>.\<close>

definition zero_words :: "uint32_t list \<Rightarrow> nat \<Rightarrow> nat \<Rightarrow> uint32_t list" where
  "zero_words m index n = fold (\<lambda>i m. m[i := 0]) [index..<n] m"

text \<open>
  \<^verbatim>\<open>Hash_Final\<close> returns the context as it leaves it and the bytes it writes to the start
  of \<^verbatim>\<open>main_buffer\<close>. The output loop
  \<^verbatim>\<open>for (uint8_t i = 0; i < ctx->digest_length; i++) main_buffer[i] = *(((uint8_t*)ctx->hash) + i)\<close>
  has no bound of its own. \<^verbatim>\<open>digest_length\<close> is 28 or 32 after \<^verbatim>\<open>Hash_Init\<close> (0 before); for
  these values, and for every value up to 32, the loop stays inside the 32 bytes of
  \<^verbatim>\<open>ctx->hash\<close> and copies the first \<^verbatim>\<open>digest_length\<close> of them, which is the second component
  below. For a larger value (only a host that writes into the context through
  \<^verbatim>\<open>Hash_GetState\<close> can store one) the source reads on past the array into whatever
  follows it in memory, and from 256 on the 8-bit counter wraps and the loop does not
  end; the second component does not describe these runs, and what is proved of the
  output below is for a digest length of at most 32. The loop does not write to the
  context.
\<close>

definition Hash_Final :: "sha256_ctx \<Rightarrow> sha256_ctx \<times> uint8_t list" where
  "Hash_Final ctx =
     (let index = drop_bit 2 ((ucast (length_bytes ctx) :: uint32_t) AND 63);
          shift = ((ucast (length_bytes ctx) :: uint32_t) AND 3) * 8;
          m = message ctx;
          m = m[unat index := m ! unat index AND NOT (push_bit (unat shift) 0xFFFFFFFF)];
          m = m[unat index := m ! unat index XOR push_bit (unat shift) 0x80];
          index = index + 1;
          (m, h, index) =
            (if index > 14
             then (let m = zero_words m (unat index) 16
                   in (m, sha256_process_block (hash ctx) m, 0))
             else (m, hash ctx, index));
          m = zero_words m (unat index) 14;
          m = m[14 := bswap_32 (ucast (drop_bit 29 (length_bytes ctx)))];
          m = m[15 := bswap_32 (ucast (push_bit 3 (length_bytes ctx)))];
          h = sha256_process_block h m;
          h = map bswap_32 h
      in (ctx\<lparr>message := m, hash := h\<rparr>,
          take (unat (digest_length ctx)) (bytes_of_words h)))"

subsection \<open>The host's view\<close>

text \<open>
  The host writes a chunk to the start of \<^verbatim>\<open>main_buffer\<close> and calls \<^verbatim>\<open>Hash_Update\<close> with
  its length; \<open>hash_chunks bits ctx cs\<close> is the digest the host reads back after
  \<^verbatim>\<open>Hash_Init(bits)\<close>, one \<^verbatim>\<open>Hash_Update\<close> for each chunk of \<open>cs\<close> in order, and
  \<^verbatim>\<open>Hash_Final\<close>, when the static context held \<open>ctx\<close> before.
\<close>

definition update :: "uint8_t list \<Rightarrow> sha256_ctx \<Rightarrow> sha256_ctx" where
  "update chunk ctx = Hash_Update chunk (of_nat (length chunk)) ctx"

definition hash_chunks :: "uint32_t \<Rightarrow> sha256_ctx \<Rightarrow> uint8_t list list \<Rightarrow> uint8_t list" where
  "hash_chunks bits ctx cs = snd (Hash_Final (fold update cs (fst (Hash_Init bits ctx))))"

text \<open>The contexts the program can hold: the two arrays have their declared sizes.\<close>

definition ctx_ok :: "sha256_ctx \<Rightarrow> bool" where
  "ctx_ok ctx \<longleftrightarrow> length (message ctx) = 16 \<and> length (hash ctx) = 8"

text \<open>Lower-case hexadecimal encoding of a byte string, two digits for each byte.\<close>

definition hex_digit :: "nat \<Rightarrow> char" where
  "hex_digit n = ''0123456789abcdef'' ! n"

definition hex :: "uint8_t list \<Rightarrow> string" where
  "hex bs = concat (map (\<lambda>b. [hex_digit (unat b div 16), hex_digit (unat b mod 16)]) bs)"

text \<open>The bytes of an ASCII string.\<close>

definition ascii :: "string \<Rightarrow> uint8_t list" where
  "ascii s = map (\<lambda>c. of_nat (of_char c)) s"

subsection \<open>The stream absorbed so far\<close>

text \<open>
  The complete 64-byte blocks of a byte string, in order; the hash state after one
  compression for each of them; and the bytes after the last complete block.
\<close>

function blocks64 :: "uint8_t list \<Rightarrow> uint8_t list list" where
  "blocks64 bs = (if 64 \<le> length bs then take 64 bs # blocks64 (drop 64 bs) else [])"
  by pat_completeness auto
termination
  by (relation "measure length") auto

definition absorb :: "uint32_t list \<Rightarrow> uint8_t list \<Rightarrow> uint32_t list" where
  "absorb h bs = fold (\<lambda>block h. sha256_process_block h (words_of_bytes block)) (blocks64 bs) h"

definition pending :: "uint8_t list \<Rightarrow> uint8_t list" where
  "pending bs = drop (length bs - length bs mod 64) bs"

text \<open>
  \<open>absorbed h0 m ctx\<close>: the context is what \<^verbatim>\<open>Hash_Update\<close> leaves when the hash started
  from \<open>h0\<close> and the bytes \<open>m\<close> have been passed in.
\<close>

definition absorbed :: "uint32_t list \<Rightarrow> uint8_t list \<Rightarrow> sha256_ctx \<Rightarrow> bool" where
  "absorbed h0 m ctx \<longleftrightarrow>
     ctx_ok ctx \<and> length_bytes ctx = of_nat (length m) \<and> hash ctx = absorb h0 m \<and>
     take (length m mod 64) (bytes_of_words (message ctx)) = pending m"

subsection \<open>Padding and the digest, as the specification describes them\<close>

text \<open>A 64-bit integer as 8 bytes, most significant first.\<close>

definition be64 :: "uint64_t \<Rightarrow> uint8_t list" where
  "be64 x = map (\<lambda>i. ucast (drop_bit (8 * (7 - i)) x)) [0..<8]"

text \<open>
  The padding of the pending bytes: the byte \<open>0x80\<close>, zero bytes up to 56 modulo 64, and
  the bit count \<open>len * 8\<close> in 64 bits.
\<close>

definition padded :: "uint8_t list \<Rightarrow> uint64_t \<Rightarrow> uint8_t list" where
  "padded pend len = pend @ [0x80] @ replicate ((119 - length pend) mod 64) 0 @ be64 (len * 8)"

definition pad_message :: "uint8_t list \<Rightarrow> uint8_t list" where
  "pad_message m = m @ [0x80] @ replicate ((119 - length m mod 64) mod 64) 0
                   @ be64 (of_nat (length m) * 8)"

definition H0 :: "uint32_t \<Rightarrow> uint32_t list" where
  "H0 bits = (if bits = 224 then SHA224_H0 else SHA256_H0)"

text \<open>
  The digest of a message: the state after absorbing the padded message, its words
  most significant byte first, cut to 28 bytes for SHA-224 and 32 otherwise.
\<close>

definition sha2_digest :: "uint32_t \<Rightarrow> uint8_t list \<Rightarrow> uint8_t list" where
  "sha2_digest bits m =
     take (if bits = 224 then 28 else 32)
       (bytes_of_words (map bswap_32 (absorb (H0 bits) (pad_message m))))"

text \<open>The two word-level steps of \<^verbatim>\<open>Hash_Final\<close>: the word that receives the byte
  \<open>0x80\<close>, and the two words of the bit count.\<close>

definition pad_word :: "uint32_t \<Rightarrow> nat \<Rightarrow> uint32_t" where
  "pad_word w r = (w AND NOT (push_bit (8 * r) 0xFFFFFFFF)) XOR push_bit (8 * r) 0x80"

definition length_words :: "uint64_t \<Rightarrow> uint32_t list" where
  "length_words len = [bswap_32 (ucast (drop_bit 29 len)), bswap_32 (ucast (push_bit 3 len))]"

subsection \<open>The compression function, as the specification describes it\<close>

text \<open>
  The reference definition of section 4.1 of the specification, written from its words:
  the block as sixteen big-endian words, the full schedule \<open>W[0..63]\<close>, sixty-four rounds
  on the eight working variables, and the final addition to the state. It shares only
  the table of round constants with the source.
\<close>

definition fips_rotr :: "uint32_t \<Rightarrow> nat \<Rightarrow> uint32_t" where
  "fips_rotr x n = word_rotr n x"

definition fips_sigma0 :: "uint32_t \<Rightarrow> uint32_t" where
  "fips_sigma0 x = fips_rotr x 7 XOR fips_rotr x 18 XOR drop_bit 3 x"

definition fips_sigma1 :: "uint32_t \<Rightarrow> uint32_t" where
  "fips_sigma1 x = fips_rotr x 17 XOR fips_rotr x 19 XOR drop_bit 10 x"

definition fips_Sigma0 :: "uint32_t \<Rightarrow> uint32_t" where
  "fips_Sigma0 x = fips_rotr x 2 XOR fips_rotr x 13 XOR fips_rotr x 22"

definition fips_Sigma1 :: "uint32_t \<Rightarrow> uint32_t" where
  "fips_Sigma1 x = fips_rotr x 6 XOR fips_rotr x 11 XOR fips_rotr x 25"

definition fips_Ch :: "uint32_t \<Rightarrow> uint32_t \<Rightarrow> uint32_t \<Rightarrow> uint32_t" where
  "fips_Ch x y z = (x AND y) XOR (NOT x AND z)"

definition fips_Maj :: "uint32_t \<Rightarrow> uint32_t \<Rightarrow> uint32_t \<Rightarrow> uint32_t" where
  "fips_Maj x y z = (x AND y) XOR (x AND z) XOR (y AND z)"

definition be_word :: "uint8_t list \<Rightarrow> uint32_t" where
  "be_word bs = push_bit 24 (ucast (bs ! 0)) OR push_bit 16 (ucast (bs ! 1))
                OR push_bit 8 (ucast (bs ! 2)) OR ucast (bs ! 3)"

definition fips_block_words :: "uint8_t list \<Rightarrow> uint32_t list" where
  "fips_block_words block = map (\<lambda>i. be_word (take 4 (drop (4 * i) block))) [0..<16]"

fun fips_W :: "uint32_t list \<Rightarrow> nat \<Rightarrow> uint32_t" where
  "fips_W w n =
     (if n < 16 then w ! n
      else fips_sigma1 (fips_W w (n - 2)) + fips_W w (n - 7)
           + fips_sigma0 (fips_W w (n - 15)) + fips_W w (n - 16))"

type_synonym working =
  "uint32_t \<times> uint32_t \<times> uint32_t \<times> uint32_t \<times> uint32_t \<times> uint32_t \<times> uint32_t \<times> uint32_t"

definition fips_round :: "uint32_t \<Rightarrow> uint32_t \<Rightarrow> working \<Rightarrow> working" where
  "fips_round k w = (\<lambda>(a, b, c, d, e, f, g, h).
     let T1 = h + fips_Sigma1 e + fips_Ch e f g + k + w;
         h' = T1 + fips_Sigma0 a + fips_Maj a b c;
         d' = d + T1
     in (h', a, b, c, d', e, f, g))"

definition fips_compress :: "uint32_t list \<Rightarrow> uint8_t list \<Rightarrow> uint32_t list" where
  "fips_compress state block =
     (let w = fips_block_words block;
          (a, b, c, d, e, f, g, h) =
             fold (\<lambda>t. fips_round (rhash_k256 ! t) (fips_W w t)) [0..<64]
               (state ! 0, state ! 1, state ! 2, state ! 3,
                state ! 4, state ! 5, state ! 6, state ! 7)
      in [state ! 0 + a, state ! 1 + b, state ! 2 + c, state ! 3 + d,
          state ! 4 + e, state ! 5 + f, state ! 6 + g, state ! 7 + h])"

subsection \<open>The rotation of the variable names\<close>

text \<open>
  Line \<open>n\<close> of the unrolled rounds passes the eight names rotated \<open>n\<close> places, with period
  8; \<open>roles n\<close> is the order on line \<open>n\<close> and \<open>view n\<close> reads the variables in that order.
  \<open>line_1_16\<close> and \<open>line_17_64\<close> are line \<open>n\<close> of the two unrolled sequences.
\<close>

definition roles :: "nat \<Rightarrow> var list" where
  "roles n = [[A, B, C, D, E, F, G, H], [H, A, B, C, D, E, F, G], [G, H, A, B, C, D, E, F],
              [F, G, H, A, B, C, D, E], [E, F, G, H, A, B, C, D], [D, E, F, G, H, A, B, C],
              [C, D, E, F, G, H, A, B], [B, C, D, E, F, G, H, A]] ! (n mod 8)"

definition view :: "nat \<Rightarrow> (var \<Rightarrow> uint32_t) \<Rightarrow> working" where
  "view n v = (v (roles n ! 0), v (roles n ! 1), v (roles n ! 2), v (roles n ! 3),
               v (roles n ! 4), v (roles n ! 5), v (roles n ! 6), v (roles n ! 7))"

definition line_1_16 :: "uint32_t list \<Rightarrow> nat \<Rightarrow> locals \<Rightarrow> locals" where
  "line_1_16 block n =
     ROUND_1_16 (roles n ! 0) (roles n ! 1) (roles n ! 2) (roles n ! 3)
       (roles n ! 4) (roles n ! 5) (roles n ! 6) (roles n ! 7) (int n) block"

definition line_17_64 :: "uint32_t list \<Rightarrow> nat \<Rightarrow> locals \<Rightarrow> locals" where
  "line_17_64 k n =
     ROUND_17_64 (roles n ! 0) (roles n ! 1) (roles n ! 2) (roles n ! 3)
       (roles n ! 4) (roles n ! 5) (roles n ! 6) (roles n ! 7) (int n) k"

declare blocks64.simps [simp del] rounds_loop.simps [simp del] process_blocks.simps [simp del]
  fips_W.simps [simp del]

section \<open>Properties\<close>

subsection \<open>Initialisation\<close>

lemma list8:
  assumes "length xs = 8"
  obtains a b c d e f g h where "xs = [a, b, c, d, e, f, g, h]"
  using assms by (auto simp: length_Suc_conv numeral_eq_Suc)

lemma sha256_init_eq:
  assumes "length (hash ctx) = 8"
  shows "sha256_init ctx = ctx\<lparr>length_bytes := 0, digest_length := 32, hash := SHA256_H0\<rparr>"
proof -
  from assms obtain a b c d e f g h where "hash ctx = [a, b, c, d, e, f, g, h]"
    by (rule list8)
  then show ?thesis
    by (simp add: sha256_init_def sha256_hash_size_def SHA256_H0_def)
qed

lemma sha224_init_eq:
  assumes "length (hash ctx) = 8"
  shows "sha224_init ctx = ctx\<lparr>length_bytes := 0, digest_length := 28, hash := SHA224_H0\<rparr>"
proof -
  from assms obtain a b c d e f g h where "hash ctx = [a, b, c, d, e, f, g, h]"
    by (rule list8)
  then show ?thesis
    by (simp add: sha224_init_def sha224_hash_size_def SHA224_H0_def)
qed

text \<open>
  Claim C10. \<^verbatim>\<open>Hash_Init\<close> compares its argument with 224 only: the value 224 loads the
  SHA-224 initial words and the digest length 28; every other value (0, 256, 512,
  anything) loads the SHA-256 initial words and the digest length 32. The length is
  reset to 0, the message buffer is left as it was, and the return value is always 0.
\<close>

theorem Hash_Init_variant:
  assumes "length (hash ctx) = 8"
  shows "Hash_Init bits ctx =
           (if bits = 224
            then (ctx\<lparr>length_bytes := 0, digest_length := 28, hash := SHA224_H0\<rparr>, 0)
            else (ctx\<lparr>length_bytes := 0, digest_length := 32, hash := SHA256_H0\<rparr>, 0))"
  using assms by (simp add: Hash_Init_def sha256_init_eq sha224_init_eq)

theorem Hash_Init_variant_witness:
  "length (hash sctx) = 8 \<and>
   Hash_Init 512 sctx = (sctx\<lparr>length_bytes := 0, digest_length := 32, hash := SHA256_H0\<rparr>, 0) \<and>
   Hash_Init 0 sctx = (sctx\<lparr>length_bytes := 0, digest_length := 32, hash := SHA256_H0\<rparr>, 0) \<and>
   Hash_Init 224 sctx = (sctx\<lparr>length_bytes := 0, digest_length := 28, hash := SHA224_H0\<rparr>, 0)"
proof -
  have len: "length (hash sctx) = 8" by (simp add: sctx_def)
  show ?thesis
    using len Hash_Init_variant [OF len, of 512] Hash_Init_variant [OF len, of 0]
      Hash_Init_variant [OF len, of 224]
    by simp
qed

subsection \<open>Bytes and words\<close>

lemma bit8_False: "8 \<le> n \<Longrightarrow> \<not> bit (b :: uint8_t) n"
  by (auto dest: bit_imp_le_length)

lemma byte_of_le_word:
  "byte_of (le_word [b0, b1, b2, b3]) 0 = b0"
  "byte_of (le_word [b0, b1, b2, b3]) (Suc 0) = b1"
  "byte_of (le_word [b0, b1, b2, b3]) 2 = b2"
  "byte_of (le_word [b0, b1, b2, b3]) 3 = b3"
  by (rule bit_word_eqI; auto simp: byte_of_def le_word_def bit_simps bit8_False)+

lemma le_bytes_le_word: "le_bytes (le_word [b0, b1, b2, b3]) = [b0, b1, b2, b3]"
  by (simp add: le_bytes_def byte_of_le_word)

lemma le_word_le_bytes: "le_word (le_bytes w) = w"
proof (rule bit_word_eqI)
  fix n assume n: "n < LENGTH(32)"
  consider "n < 8" | "8 \<le> n" "n < 16" | "16 \<le> n" "n < 24" | "24 \<le> n" "n < 32"
    using n by fastforce
  then show "bit (le_word (le_bytes w)) n = bit w n"
    by cases (auto simp: le_bytes_def byte_of_def le_word_def bit_simps)
qed

lemma length_le_bytes [simp]: "length (le_bytes w) = 4"
  by (simp add: le_bytes_def)

lemma length_bytes_of_words [simp]: "length (bytes_of_words ws) = 4 * length ws"
  by (induction ws) (simp_all add: bytes_of_words_def)

lemma bytes_of_words_Nil [simp]: "bytes_of_words [] = []"
  by (simp add: bytes_of_words_def)

lemma bytes_of_words_Cons: "bytes_of_words (w # ws) = le_bytes w @ bytes_of_words ws"
  by (simp add: bytes_of_words_def)

lemma bytes_of_words_append: "bytes_of_words (xs @ ys) = bytes_of_words xs @ bytes_of_words ys"
  by (simp add: bytes_of_words_def)

lemma words_of_bytes_le_bytes: "words_of_bytes (le_bytes w @ bs) = w # words_of_bytes bs"
proof -
  have "le_bytes w = [byte_of w 0, byte_of w 1, byte_of w 2, byte_of w 3]"
    by (simp add: le_bytes_def)
  moreover have "le_word [byte_of w 0, byte_of w 1, byte_of w 2, byte_of w 3] = w"
    using le_word_le_bytes [of w] by (simp add: le_bytes_def)
  ultimately show ?thesis by simp
qed

lemma words_of_bytes_of_words: "words_of_bytes (bytes_of_words ws) = ws"
  by (induction ws) (simp_all add: bytes_of_words_Cons words_of_bytes_le_bytes)

lemma bytes_of_words_of_bytes:
  "length bs mod 4 = 0 \<Longrightarrow> bytes_of_words (words_of_bytes bs) = bs"
proof (induction bs rule: words_of_bytes.induct)
  case (1 b0 b1 b2 b3 bs)
  then show ?case by (simp add: bytes_of_words_Cons le_bytes_le_word)
qed simp_all

lemma length_words_of_bytes [simp]: "length (words_of_bytes bs) = length bs div 4"
  by (induction bs rule: words_of_bytes.induct) simp_all

lemma words_of_bytes_inj:
  "bytes_of_words ws = bs \<Longrightarrow> ws = words_of_bytes bs"
  using words_of_bytes_of_words by auto

lemma nth_le_bytes: "r < 4 \<Longrightarrow> le_bytes w ! r = byte_of w r"
proof -
  assume "r < 4"
  then consider "r = 0" | "r = 1" | "r = 2" | "r = 3" by linarith
  then show ?thesis by cases (simp_all add: le_bytes_def)
qed

lemma nth_bytes_of_words:
  "j < 4 * length ws \<Longrightarrow> bytes_of_words ws ! j = byte_of (ws ! (j div 4)) (j mod 4)"
proof (induction ws arbitrary: j)
  case Nil then show ?case by simp
next
  case (Cons x xs)
  show ?case
  proof (cases "j < 4")
    case True then show ?thesis
      by (simp add: bytes_of_words_Cons nth_append nth_le_bytes)
  next
    case False
    then have j: "j - 4 < 4 * length xs" and d: "j div 4 = Suc ((j - 4) div 4)"
      and m: "j mod 4 = (j - 4) mod 4"
      using Cons.prems by (simp_all add: le_div_geq le_mod_geq)
    show ?thesis
      using False Cons.IH [OF j] by (simp add: bytes_of_words_Cons nth_append d m)
  qed
qed

text \<open>Replacing one byte of a word.\<close>

lemma byte_of_replace:
  assumes "r < 4" "q < 4"
  shows "byte_of ((w AND NOT (push_bit (8 * r) (mask 8))) OR push_bit (8 * r) (ucast b)) q
         = (if q = r then b else byte_of w q)"
proof (rule bit_word_eqI)
  fix n assume n: "n < LENGTH(8)"
  have lt: "8 * q + n < 32" using assms n by simp
  show "bit (byte_of ((w AND NOT (push_bit (8 * r) (mask 8))) OR push_bit (8 * r) (ucast b)) q) n
        = bit (if q = r then b else byte_of w q) n"
  proof (cases "q = r")
    case True
    then show ?thesis using n lt by (simp add: byte_of_def bit_simps)
  next
    case False
    have a: "\<not> (8 * r \<le> 8 * q + n \<and> 8 * q + n - 8 * r < 8)" using False n by auto
    have "\<not> (8 * r \<le> 8 * q + n \<and> bit b (8 * q + n - 8 * r))"
    proof
      assume h: "8 * r \<le> 8 * q + n \<and> bit b (8 * q + n - 8 * r)"
      then have "8 * q + n - 8 * r < 8" using bit8_False [of "8 * q + n - 8 * r" b] by linarith
      with h a show False by simp
    qed
    then show ?thesis using False n lt a by (auto simp: byte_of_def bit_simps)
  qed
qed

lemma length_store8 [simp]: "length (store8 ws k b) = length ws"
  by (simp add: store8_def)

lemma store8_bytes:
  assumes "k < 4 * length ws"
  shows "bytes_of_words (store8 ws k b) = (bytes_of_words ws)[k := b]"
proof (rule nth_equalityI)
  show "length (bytes_of_words (store8 ws k b)) = length ((bytes_of_words ws)[k := b])"
    by simp
next
  fix j assume "j < length (bytes_of_words (store8 ws k b))"
  then have j: "j < 4 * length ws" by simp
  have i: "k div 4 < length ws" using assms by simp
  have eq: "j = k \<longleftrightarrow> j div 4 = k div 4 \<and> j mod 4 = k mod 4"
    by (metis div_mult_mod_eq)
  have "bytes_of_words (store8 ws k b) ! j = byte_of (store8 ws k b ! (j div 4)) (j mod 4)"
    using j by (simp add: nth_bytes_of_words)
  also have "\<dots> = (if j = k then b else byte_of (ws ! (j div 4)) (j mod 4))"
    using i j by (auto simp: store8_def nth_list_update byte_of_replace eq)
  also have "\<dots> = (bytes_of_words ws)[k := b] ! j"
    using j assms by (simp add: nth_list_update nth_bytes_of_words)
  finally show "bytes_of_words (store8 ws k b) ! j = (bytes_of_words ws)[k := b] ! j" .
qed

subsection \<open>Absorbing blocks\<close>

lemma blocks64_short: "length bs < 64 \<Longrightarrow> blocks64 bs = []"
  by (subst blocks64.simps) simp

lemma blocks64_block: "length b = 64 \<Longrightarrow> blocks64 (b @ bs) = b # blocks64 bs"
  by (subst blocks64.simps) simp

lemma length_blocks64: "length (blocks64 bs) = length bs div 64"
proof (induction bs rule: blocks64.induct)
  case (1 bs)
  show ?case
  proof (cases "64 \<le> length bs")
    case True
    with 1 show ?thesis by (subst blocks64.simps) (simp add: le_div_geq)
  next
    case False then show ?thesis by (simp add: blocks64_short)
  qed
qed

lemma length_pending [simp]: "length (pending bs) = length bs mod 64"
proof -
  have "length bs mod 64 \<le> length bs" by (rule mod_less_eq_dividend)
  then show ?thesis by (simp add: pending_def)
qed

lemma pending_short: "length bs < 64 \<Longrightarrow> pending bs = bs"
  by (simp add: pending_def)

lemma pending_block: "length b = 64 \<Longrightarrow> pending (b @ bs) = pending bs"
proof -
  assume b: "length b = 64"
  have "length bs mod 64 \<le> length bs" by (rule mod_less_eq_dividend)
  then show ?thesis using b by (simp add: pending_def)
qed

lemma blocks64_append: "blocks64 (xs @ ys) = blocks64 xs @ blocks64 (pending xs @ ys)"
proof (induction xs rule: blocks64.induct)
  case (1 xs)
  show ?case
  proof (cases "64 \<le> length xs")
    case True
    then have l: "length (take 64 xs) = 64" by simp
    have xy: "xs @ ys = take 64 xs @ (drop 64 xs @ ys)" by simp
    have "blocks64 (xs @ ys) = take 64 xs # blocks64 (drop 64 xs @ ys)"
      by (subst xy) (rule blocks64_block [OF l])
    moreover have "blocks64 xs = take 64 xs # blocks64 (drop 64 xs)"
      using blocks64_block [OF l, of "drop 64 xs"] by simp
    moreover have "pending xs = pending (drop 64 xs)"
      using pending_block [OF l, of "drop 64 xs"] by simp
    ultimately show ?thesis using 1 [OF True] by simp
  next
    case False
    then show ?thesis by (simp add: blocks64_short pending_short)
  qed
qed

lemma pending_append: "pending (xs @ ys) = pending (pending xs @ ys)"
proof (induction xs rule: blocks64.induct)
  case (1 xs)
  show ?case
  proof (cases "64 \<le> length xs")
    case True
    then have l: "length (take 64 xs) = 64" by simp
    have xy: "xs @ ys = take 64 xs @ (drop 64 xs @ ys)" by simp
    have "pending (xs @ ys) = pending (drop 64 xs @ ys)"
      by (subst xy) (rule pending_block [OF l])
    moreover have "pending xs = pending (drop 64 xs)"
      using pending_block [OF l, of "drop 64 xs"] by simp
    ultimately show ?thesis using 1 [OF True] by simp
  next
    case False
    then show ?thesis by (simp add: pending_short)
  qed
qed

lemma absorb_short: "length bs < 64 \<Longrightarrow> absorb h bs = h"
  by (simp add: absorb_def blocks64_short)

lemma absorb_block:
  "length b = 64 \<Longrightarrow> absorb h (b @ bs) = absorb (sha256_process_block h (words_of_bytes b)) bs"
  by (simp add: absorb_def blocks64_block)

lemma absorb_append: "absorb h (xs @ ys) = absorb (absorb h xs) (pending xs @ ys)"
  unfolding absorb_def by (subst blocks64_append) simp

lemma length_sha256_process_block [simp]: "length (sha256_process_block h b) = 8"
proof -
  have "length [a0, a1, a2, a3, a4, a5, a6, a7] = 8" for a0 a1 a2 a3 a4 a5 a6 a7 :: uint32_t
    by simp
  then show ?thesis
    by (simp only: sha256_process_block_def sha256_process_block_from_def Let_def)
qed

lemma length_absorb: "length h = 8 \<Longrightarrow> length (absorb h bs) = 8"
proof (induction bs arbitrary: h rule: blocks64.induct)
  case (1 bs)
  show ?case
  proof (cases "64 \<le> length bs")
    case True
    then have l: "length (take 64 bs) = 64" by simp
    have "absorb h bs = absorb (sha256_process_block h (words_of_bytes (take 64 bs))) (drop 64 bs)"
      using absorb_block [OF l, of h "drop 64 bs"] by simp
    then show ?thesis using 1(1) [OF True] by simp
  next
    case False
    with 1 show ?thesis by (simp add: absorb_short)
  qed
qed

text \<open>The block loop of \<^verbatim>\<open>Hash_Update\<close>.\<close>

lemma absorb_take_step:
  assumes "64 \<le> n" "n \<le> length msg"
  shows "absorb h (take n msg)
         = absorb (sha256_process_block h (words_of_bytes (take 64 msg))) (take (n - 64) (drop 64 msg))"
proof -
  have l: "length (take 64 msg) = 64" using assms by simp
  have "take n msg = take 64 msg @ take (n - 64) (drop 64 msg)"
    using assms by (metis le_add_diff_inverse take_add)
  then show ?thesis using absorb_block [OF l] by simp
qed

lemma process_blocks_eq:
  "unat sz \<le> length msg \<Longrightarrow>
   process_blocks msg sz h =
     (drop (unat sz - unat sz mod 64) msg, of_nat (unat sz mod 64), absorb h (take (unat sz) msg))"
proof (induction msg sz h rule: process_blocks.induct)
  case (1 msg sz h)
  show ?case
  proof (cases "sz \<ge> sha256_block_size")
    case True
    then have ge: "64 \<le> unat sz" by (simp add: sha256_block_size_def word_le_nat_alt)
    have u: "unat (sz - sha256_block_size) = unat sz - 64"
      using ge by (simp add: sha256_block_size_def unat_sub word_le_nat_alt)
    have le: "unat (sz - sha256_block_size) \<le> length (drop 64 msg)"
      using u "1.prems" by simp
    have ab: "absorb h (take (unat sz) msg)
              = absorb (sha256_process_block h (words_of_bytes (take 64 msg)))
                  (take (unat sz - 64) (drop 64 msg))"
      using ge "1.prems" by (rule absorb_take_step)
    have m: "(unat sz - 64) mod 64 = unat sz mod 64" using ge by (simp add: le_mod_geq)
    have "unat sz mod 64 \<le> unat sz - 64" using m by (metis mod_less_eq_dividend)
    then have d: "unat sz - 64 - unat sz mod 64 + 64 = unat sz - unat sz mod 64"
      using ge by linarith
    have "process_blocks msg sz h
          = process_blocks (drop 64 msg) (sz - sha256_block_size)
              (sha256_process_block h (words_of_bytes (take 64 msg)))"
      using True by (subst process_blocks.simps) simp
    also have "\<dots> = (drop (unat sz - 64 - unat sz mod 64) (drop 64 msg), of_nat (unat sz mod 64),
                      absorb (sha256_process_block h (words_of_bytes (take 64 msg)))
                        (take (unat sz - 64) (drop 64 msg)))"
      using "1.IH" [OF True le] by (simp only: u m)
    also have "\<dots> = (drop (unat sz - unat sz mod 64) msg, of_nat (unat sz mod 64),
                      absorb h (take (unat sz) msg))"
      by (simp only: ab drop_drop d)
    finally show ?thesis .
  next
    case False
    then have lt: "unat sz < 64" by (simp add: sha256_block_size_def word_le_nat_alt)
    have "process_blocks msg sz h = (msg, sz, h)"
      using False by (subst process_blocks.simps) simp
    then show ?thesis using lt by (simp add: absorb_short)
  qed
qed

lemma copy_bytes_Suc:
  "copy_bytes ws i msg (Suc n) = store8 (copy_bytes ws i msg n) (i + n) (msg ! n)"
  by (simp add: copy_bytes_def)

lemma length_copy_bytes [simp]: "length (copy_bytes ws i msg n) = length ws"
  by (induction n) (simp_all add: copy_bytes_Suc, simp add: copy_bytes_def)

lemma copy_bytes_bytes:
  "i + n \<le> 4 * length ws \<Longrightarrow> n \<le> length msg \<Longrightarrow>
   bytes_of_words (copy_bytes ws i msg n)
   = take i (bytes_of_words ws) @ take n msg @ drop (i + n) (bytes_of_words ws)"
proof (induction n)
  case 0
  then show ?case by (simp add: copy_bytes_def)
next
  case (Suc n)
  let ?bs = "bytes_of_words ws"
  have lt: "i + n < 4 * length (copy_bytes ws i msg n)" using Suc.prems by simp
  have IH: "bytes_of_words (copy_bytes ws i msg n) = take i ?bs @ take n msg @ drop (i + n) ?bs"
    using Suc by simp
  have li: "min (4 * length ws) i = i" using Suc.prems by simp
  have ln: "min (length msg) n = n" using Suc.prems by simp
  have dr: "drop (i + n) ?bs = ?bs ! (i + n) # drop (Suc (i + n)) ?bs"
    using Suc.prems by (simp add: Cons_nth_drop_Suc)
  have "bytes_of_words (copy_bytes ws i msg (Suc n))
        = (take i ?bs @ take n msg @ drop (i + n) ?bs)[i + n := msg ! n]"
    by (simp only: copy_bytes_Suc store8_bytes [OF lt] IH)
  also have "\<dots> = take i ?bs @ (take n msg @ drop (i + n) ?bs)[n := msg ! n]"
    by (simp add: list_update_append li)
  also have "\<dots> = take i ?bs @ take n msg @ (drop (i + n) ?bs)[0 := msg ! n]"
    by (simp add: list_update_append ln)
  also have "\<dots> = take i ?bs @ take n msg @ [msg ! n] @ drop (Suc (i + n)) ?bs"
    by (subst dr) simp
  also have "\<dots> = take i ?bs @ take (Suc n) msg @ drop (i + Suc n) ?bs"
    using Suc.prems by (simp add: take_Suc_conv_app_nth)
  finally show ?case .
qed

text \<open>The index computations on the 64-bit length.\<close>

lemma unat_and_63: "unat ((ucast (len :: uint64_t) :: uint32_t) AND 63) = unat len mod 64"
proof -
  have "(63 :: uint32_t) = mask 6" by (simp add: mask_eq_exp_minus_1)
  then have "(ucast len :: uint32_t) AND 63 = take_bit 6 (ucast len)"
    by (simp add: take_bit_eq_mask)
  then have "unat ((ucast len :: uint32_t) AND 63) = unat (ucast len :: uint32_t) mod 64"
    by (simp add: unsigned_take_bit_eq take_bit_eq_mod unat_mod)
  also have "unat (ucast len :: uint32_t) = unat len mod 2 ^ 32"
    by (simp add: unsigned_ucast_eq take_bit_eq_mod)
  also have "unat len mod 2 ^ 32 mod 64 = unat len mod 64"
    by (rule mod_mod_cancel) simp
  finally show ?thesis .
qed

lemma unat_and_3: "unat ((ucast (len :: uint64_t) :: uint32_t) AND 3) = unat len mod 4"
proof -
  have "(3 :: uint32_t) = mask 2" by (simp add: mask_eq_exp_minus_1)
  then have "(ucast len :: uint32_t) AND 3 = take_bit 2 (ucast len)"
    by (simp add: take_bit_eq_mask)
  then have "unat ((ucast len :: uint32_t) AND 3) = unat (ucast len :: uint32_t) mod 4"
    by (simp add: unsigned_take_bit_eq take_bit_eq_mod unat_mod)
  also have "unat (ucast len :: uint32_t) = unat len mod 2 ^ 32"
    by (simp add: unsigned_ucast_eq take_bit_eq_mod)
  also have "unat len mod 2 ^ 32 mod 4 = unat len mod 4"
    by (rule mod_mod_cancel) simp
  finally show ?thesis .
qed

lemma unat_of_nat_mod_64: "unat (of_nat n :: uint64_t) mod 64 = n mod 64"
proof -
  have "unat (of_nat n :: uint64_t) = n mod 2 ^ 64" by (simp add: unat_of_nat)
  moreover have "n mod 2 ^ 64 mod 64 = n mod 64" by (rule mod_mod_cancel) simp
  ultimately show ?thesis by simp
qed

lemma length_bytes_add:
  "(of_nat n :: uint64_t) + ucast (sz :: uint32_t) = of_nat (n + unat sz)"
  by simp

lemma unat_of_nat_small: "k < 64 \<Longrightarrow> unat (of_nat k :: uint32_t) = k"
  by (simp add: unat_of_nat)

lemma pending_take:
  "s \<le> length msg \<Longrightarrow> pending (take s msg) = take (s mod 64) (drop (s - s mod 64) msg)"
proof -
  assume s: "s \<le> length msg"
  have "s mod 64 \<le> s" by (rule mod_less_eq_dividend)
  then have "s - (s - s mod 64) = s mod 64" by simp
  then show ?thesis using s by (simp add: pending_def drop_take min_def)
qed

lemma Hash_Update_rest_props:
  assumes len: "length (message ctx) = 16" and sz: "unat sz \<le> length msg"
  shows "hash (Hash_Update_rest msg sz ctx) = absorb (hash ctx) (take (unat sz) msg)"
    and "length (message (Hash_Update_rest msg sz ctx)) = 16"
    and "take (unat sz mod 64) (bytes_of_words (message (Hash_Update_rest msg sz ctx)))
         = pending (take (unat sz) msg)"
    and "length_bytes (Hash_Update_rest msg sz ctx) = length_bytes ctx"
    and "digest_length (Hash_Update_rest msg sz ctx) = digest_length ctx"
proof -
  let ?k = "unat sz mod 64"
  let ?tail = "drop (unat sz - ?k) msg"
  have k: "?k < 64" by simp
  have pb: "process_blocks msg sz (hash ctx)
            = (?tail, of_nat ?k, absorb (hash ctx) (take (unat sz) msg))"
    using sz by (rule process_blocks_eq)
  have nz: "(of_nat ?k :: uint32_t) \<noteq> 0 \<longleftrightarrow> ?k \<noteq> 0"
    using unat_of_nat_small [OF k] by (metis unat_eq_0)
  have uk: "unat (of_nat ?k :: uint32_t) = ?k" using k by (rule unat_of_nat_small)
  have eq: "Hash_Update_rest msg sz ctx
            = (if ?k \<noteq> 0
               then ctx\<lparr>hash := absorb (hash ctx) (take (unat sz) msg),
                        message := copy_bytes (message ctx) 0 ?tail ?k\<rparr>
               else ctx\<lparr>hash := absorb (hash ctx) (take (unat sz) msg)\<rparr>)"
    unfolding Hash_Update_rest_def pb by (simp add: Let_def nz uk)
  show "hash (Hash_Update_rest msg sz ctx) = absorb (hash ctx) (take (unat sz) msg)"
    by (simp add: eq)
  show "length (message (Hash_Update_rest msg sz ctx)) = 16"
    by (simp add: eq len)
  show "length_bytes (Hash_Update_rest msg sz ctx) = length_bytes ctx"
    by (simp add: eq)
  show "digest_length (Hash_Update_rest msg sz ctx) = digest_length ctx"
    by (simp add: eq)
  show "take ?k (bytes_of_words (message (Hash_Update_rest msg sz ctx)))
        = pending (take (unat sz) msg)"
  proof (cases "?k = 0")
    case True
    then show ?thesis using sz by (simp add: pending_take)
  next
    case False
    have "?k \<le> unat sz" by (rule mod_less_eq_dividend)
    then have tl: "?k \<le> length ?tail" using sz by simp
    have "bytes_of_words (copy_bytes (message ctx) 0 ?tail ?k)
          = take 0 (bytes_of_words (message ctx)) @ take ?k ?tail
            @ drop (0 + ?k) (bytes_of_words (message ctx))"
      using tl by (intro copy_bytes_bytes) (simp_all add: len)
    then have "take ?k (bytes_of_words (copy_bytes (message ctx) 0 ?tail ?k)) = take ?k ?tail"
      using tl by simp
    then show ?thesis using False sz by (simp add: eq pending_take)
  qed
qed

lemma Hash_Update_absorbed:
  assumes inv: "absorbed h0 m ctx" and sz: "unat sz \<le> length buf"
  shows "absorbed h0 (m @ take (unat sz) buf) (Hash_Update buf sz ctx)"
    and "digest_length (Hash_Update buf sz ctx) = digest_length ctx"
proof -
  let ?n = "length m" and ?s = "unat sz"
  let ?L = "length m mod 64"
  let ?c = "take (unat sz) buf"
  let ?bs = "bytes_of_words (message ctx)"
  let ?index = "(ucast (length_bytes ctx) :: uint32_t) AND 63"
  let ?ctx1 = "ctx\<lparr>length_bytes := length_bytes ctx + ucast sz\<rparr>"
  from inv have lm: "length (message ctx) = 16" and lh: "length (hash ctx) = 8"
    and lb: "length_bytes ctx = of_nat ?n" and h: "hash ctx = absorb h0 m"
    and pd: "take ?L ?bs = pending m"
    unfolding absorbed_def ctx_ok_def by blast+
  have lc: "length ?c = ?s" using sz by simp
  have mn: "min (length buf) ?s = ?s" using sz by simp
  have L: "?L < 64" by simp
  have ui: "unat ?index = ?L" by (simp add: unat_and_63 lb unat_of_nat_mod_64)
  have i0: "?index = 0 \<longleftrightarrow> ?L = 0" using ui by (metis unat_eq_0)
  have lb': "length_bytes ctx + ucast sz = of_nat (length (m @ ?c))"
    unfolding lb length_append lc by (rule length_bytes_add)
  have ab: "absorb h0 (m @ ?c) = absorb (hash ctx) (pending m @ ?c)"
    unfolding h by (rule absorb_append)
  have pe: "pending (m @ ?c) = pending (pending m @ ?c)"
    by (rule pending_append)
  have md: "(?n + ?s) mod 64 = (?L + ?s) mod 64" by (simp add: mod_add_left_eq)
  have lh0: "length (absorb h0 m) = 8" using lh h by simp
  have "absorbed h0 (m @ ?c) (Hash_Update buf sz ctx)
        \<and> digest_length (Hash_Update buf sz ctx) = digest_length ctx"
  proof (cases "?L = 0")
    case True
    then have "length (pending m) = 0" by simp
    then have pm: "pending m = []" by (rule length_0_conv [THEN iffD1])
    have eq: "Hash_Update buf sz ctx = Hash_Update_rest buf sz ?ctx1"
      using True i0 by (simp add: Hash_Update_def Let_def)
    have lm1: "length (message ?ctx1) = 16" using lm by simp
    note R = Hash_Update_rest_props [OF lm1 sz]
    have "hash (Hash_Update buf sz ctx) = absorb h0 (m @ ?c)"
      by (simp add: eq R(1) ab pm)
    moreover have "length (hash (Hash_Update buf sz ctx)) = 8"
      using lh by (simp add: eq R(1) length_absorb)
    moreover have "take ((?n + ?s) mod 64) (bytes_of_words (message (Hash_Update buf sz ctx)))
                   = pending (m @ ?c)"
      using True by (simp add: eq md R(3) pe pm)
    moreover have "length_bytes (Hash_Update buf sz ctx) = of_nat (length (m @ ?c))"
      by (simp only: eq R(4)) (simp add: lb' del: length_append)
    ultimately show ?thesis
      by (simp add: absorbed_def ctx_ok_def eq R(2) R(5) lc mn)
  next
    case False
    then have inz: "?index \<noteq> 0" using i0 by simp
    let ?left = "sha256_block_size - ?index"
    have ile: "?index \<le> sha256_block_size"
      using ui L by (simp add: word_le_nat_alt sha256_block_size_def)
    have ul: "unat ?left = 64 - ?L"
      using ile ui by (simp add: unat_sub sha256_block_size_def)
    have lt: "sz < ?left \<longleftrightarrow> ?s < 64 - ?L" by (simp add: word_less_nat_alt ul)
    show ?thesis
    proof (cases "?s < 64 - ?L")
      case True
      let ?M = "copy_bytes (message ctx) ?L buf ?s"
      have eq: "Hash_Update buf sz ctx = ?ctx1\<lparr>message := ?M\<rparr>"
        using inz True lt by (simp add: Hash_Update_def Let_def ui)
      have "bytes_of_words ?M = take ?L ?bs @ take ?s buf @ drop (?L + ?s) ?bs"
        using True sz by (intro copy_bytes_bytes) (simp_all add: lm)
      then have bM: "take (?L + ?s) (bytes_of_words ?M) = pending m @ ?c"
        using sz by (simp add: pd lm)
      have short: "length (pending m @ ?c) < 64" using True lc by simp
      have m64: "(?n + ?s) mod 64 = ?L + ?s" using True md by simp
      have "hash (Hash_Update buf sz ctx) = absorb h0 (m @ ?c)"
        using short by (simp add: eq ab absorb_short)
      moreover have "length (hash (Hash_Update buf sz ctx)) = 8"
        by (simp add: eq lh)
      moreover have "take ((?n + ?s) mod 64) (bytes_of_words (message (Hash_Update buf sz ctx)))
                     = pending (m @ ?c)"
        using short by (simp add: eq m64 bM pe pending_short)
      moreover have "length_bytes (Hash_Update buf sz ctx) = of_nat (length (m @ ?c))"
        by (simp add: eq lb' del: length_append)
      ultimately show ?thesis
        by (simp add: absorbed_def ctx_ok_def eq lm lh lc mn)
    next
      case False
      then have ge: "64 - ?L \<le> ?s" by simp
      let ?M = "copy_bytes (message ctx) ?L buf (64 - ?L)"
      let ?B = "pending m @ take (64 - ?L) buf"
      let ?s' = "?s - (64 - ?L)"
      let ?ctx3 = "?ctx1\<lparr>message := ?M, hash := sha256_process_block (hash ctx) ?M\<rparr>"
      have us: "unat (sz - ?left) = ?s'"
        using ge ul by (simp add: unat_sub word_le_nat_alt)
      have eq: "Hash_Update buf sz ctx = Hash_Update_rest (drop (64 - ?L) buf) (sz - ?left) ?ctx3"
        using inz False lt by (simp add: Hash_Update_def Let_def ui ul)
      have "bytes_of_words ?M = take ?L ?bs @ take (64 - ?L) buf @ drop (?L + (64 - ?L)) ?bs"
        using ge sz by (intro copy_bytes_bytes) (simp_all add: lm)
      then have bM: "bytes_of_words ?M = ?B"
        using L by (simp add: pd lm)
      then have M: "?M = words_of_bytes ?B" by (rule words_of_bytes_inj)
      have lB: "length ?B = 64" using ge sz L by simp
      have c: "?c = take (64 - ?L) buf @ take ?s' (drop (64 - ?L) buf)"
        using ge by (metis le_add_diff_inverse take_add)
      have lm3: "length (message ?ctx3) = 16" by (simp add: lm)
      have sz3: "unat (sz - ?left) \<le> length (drop (64 - ?L) buf)"
        using us sz by simp
      note R = Hash_Update_rest_props [OF lm3 sz3]
      let ?c' = "take ?s' (drop (64 - ?L) buf)"
      have pc: "pending m @ ?c = ?B @ ?c'" by (subst c) simp
      have "absorb h0 (m @ ?c) = absorb (sha256_process_block (hash ctx) (words_of_bytes ?B)) ?c'"
        unfolding ab pc using lB by (rule absorb_block)
      then have "hash (Hash_Update buf sz ctx) = absorb h0 (m @ ?c)"
        by (simp add: eq R(1) us flip: M)
      moreover have "length (hash (Hash_Update buf sz ctx)) = 8"
        by (simp add: eq R(1) length_absorb)
      moreover have "take ((?n + ?s) mod 64) (bytes_of_words (message (Hash_Update buf sz ctx)))
                     = pending (m @ ?c)"
      proof -
        have "?L + ?s = ?s' + 64" using ge L by simp
        then have "(?L + ?s) mod 64 = ?s' mod 64" by (simp only: mod_add_self2)
        then have m1: "(?n + ?s) mod 64 = ?s' mod 64" using md by (simp only:)
        have p1: "pending (m @ ?c) = pending ?c'"
          unfolding pe pc using lB by (rule pending_block)
        have "take (?s' mod 64) (bytes_of_words (message (Hash_Update buf sz ctx))) = pending ?c'"
          using R(3) by (simp only: eq us)
        then show ?thesis by (simp only: m1 p1)
      qed
      moreover have "length_bytes (Hash_Update buf sz ctx) = of_nat (length (m @ ?c))"
        by (simp only: eq R(4)) (simp add: lb' del: length_append)
      ultimately show ?thesis
        by (simp add: absorbed_def ctx_ok_def eq R(2) R(5) lc mn)
    qed
  qed
  then show "absorbed h0 (m @ ?c) (Hash_Update buf sz ctx)"
    and "digest_length (Hash_Update buf sz ctx) = digest_length ctx"
    by simp_all
qed

subsection \<open>The words of the final blocks\<close>

lemma bit_128_int: "bit (128 :: int) k \<longleftrightarrow> k = 7"
proof -
  have "(128 :: int) = 2 ^ 7" by simp
  then show ?thesis by (simp only: bit_simps) auto
qed

lemma bit_0x80: "bit (0x80 :: 'a::len word) k \<longleftrightarrow> k = 7 \<and> 7 < LENGTH('a)"
proof -
  have "(0x80 :: 'a word) = 2 ^ 7" by simp
  then show ?thesis by (simp only: bit_simps) auto
qed

lemma cFF00: "(0xFF00 :: uint32_t) = push_bit 8 (mask 8)" by (simp add: mask_eq_exp_minus_1)

lemma cFFFFFFFF: "(0xFFFFFFFF :: uint32_t) = - 1" by simp

lemma byte_of_0 [simp]: "byte_of 0 q = 0"
  by (simp add: byte_of_def)

lemma le_bytes_0 [simp]: "le_bytes 0 = [0, 0, 0, 0]"
  by (simp add: le_bytes_def)

lemma byte_of_pad_word:
  assumes "r < 4" "q < 4"
  shows "byte_of ((w AND NOT (push_bit (8 * r) 0xFFFFFFFF)) XOR push_bit (8 * r) 0x80) q
         = (if q < r then byte_of w q else if q = r then 0x80 else 0)"
proof (rule bit_word_eqI)
  fix n assume n: "n < LENGTH(8)"
  have lt: "8 * q + n < 32" using assms n by simp
  consider "q < r" | "q = r" | "r < q" by linarith
  then show "bit (byte_of ((w AND NOT (push_bit (8 * r) 0xFFFFFFFF)) XOR push_bit (8 * r) 0x80) q) n
        = bit (if q < r then byte_of w q else if q = r then 0x80 else 0) n"
  proof cases
    case 1
    then have "\<not> 8 * r \<le> 8 * q + n" using n by simp
    then show ?thesis using 1 n lt
      unfolding cFFFFFFFF by (simp add: byte_of_def bit_simps bit_0x80 bit_128_int)
  next
    case 2
    then show ?thesis using n lt
      unfolding cFFFFFFFF by (auto simp: byte_of_def bit_simps bit_0x80 bit_128_int)
  next
    case 3
    then have "8 * r \<le> 8 * q + n" "8 * q + n - 8 * r \<noteq> 7" "7 \<le> 8 * q + n - 8 * r" by simp_all
    then show ?thesis using 3 n lt
      unfolding cFFFFFFFF by (auto simp: byte_of_def bit_simps bit_0x80 bit_128_int)
  qed
qed

lemma byte_of_bswap_32: 
  assumes "q < 4" shows "byte_of (bswap_32 x) q = byte_of x (3 - q)"
proof (rule bit_word_eqI)
  fix n assume n: "n < LENGTH(8)"
  consider "q = 0" | "q = 1" | "q = 2" | "q = 3" using assms by linarith
  then show "bit (byte_of (bswap_32 x) q) n = bit (byte_of x (3 - q)) n"
    using n unfolding bswap_32_def cFF00
    by cases (auto simp: byte_of_def bit_simps)
qed

lemma le_bytes_pad_word:
  assumes "r < 4"
  shows "le_bytes ((w AND NOT (push_bit (8 * r) 0xFFFFFFFF)) XOR push_bit (8 * r) 0x80)
         = take r (le_bytes w) @ [0x80] @ replicate (3 - r) 0"
proof -
  define w1 where "w1 = (w AND NOT (push_bit (8 * r) 0xFFFFFFFF)) XOR push_bit (8 * r) 0x80"
  have b: "byte_of w1 q = (if q < r then byte_of w q else if q = r then 0x80 else 0)"
    if "q < 4" for q
    unfolding w1_def using assms that by (rule byte_of_pad_word)
  consider "r = 0" | "r = 1" | "r = 2" | "r = 3" using assms by linarith
  then have "le_bytes w1 = take r (le_bytes w) @ [0x80] @ replicate (3 - r) 0"
    by cases (simp_all add: le_bytes_def b numeral_eq_Suc)
  then show ?thesis unfolding w1_def .
qed

lemma mult_8_push_bit: "(len :: uint64_t) * 8 = push_bit 3 len"
  by (simp add: push_bit_eq_mult)

lemma byte_of_length_hi:
  assumes "q < 4"
  shows "byte_of (ucast (drop_bit 29 (len :: uint64_t)) :: uint32_t) (3 - q)
         = ucast (drop_bit (8 * (7 - q)) (len * 8))"
proof (rule bit_word_eqI)
  fix n assume n: "n < LENGTH(8)"
  have a: "8 * (3 - q) + n < 32" "3 \<le> 8 * (7 - q) + n" "8 * (7 - q) + n < 64"
    "8 * (7 - q) + n - 3 = 8 * (3 - q) + n + 29"
    using assms n by simp_all
  show "bit (byte_of (ucast (drop_bit 29 len) :: uint32_t) (3 - q)) n
        = bit (ucast (drop_bit (8 * (7 - q)) (len * 8)) :: uint8_t) n"
    using n a unfolding mult_8_push_bit
    by (simp add: byte_of_def bit_simps add.commute)
qed

lemma byte_of_length_lo:
  assumes "q < 4"
  shows "byte_of (ucast (push_bit 3 (len :: uint64_t)) :: uint32_t) (3 - q)
         = ucast (drop_bit (8 * (3 - q)) (len * 8))"
proof (rule bit_word_eqI)
  fix n assume n: "n < LENGTH(8)"
  have a: "8 * (3 - q) + n < 32" "8 * (3 - q) + n < 64"
    using assms n by simp_all
  show "bit (byte_of (ucast (push_bit 3 len) :: uint32_t) (3 - q)) n
        = bit (ucast (drop_bit (8 * (3 - q)) (len * 8)) :: uint8_t) n"
    using n a unfolding mult_8_push_bit
    by (simp add: byte_of_def bit_simps add.commute)
qed

lemma upt_8: "[0..<8] = [0, 1, 2, 3, 4, 5, 6, 7]"
  by (simp add: upt_rec)

lemma le_bytes_length_words:
  "le_bytes (bswap_32 (ucast (drop_bit 29 len))) @ le_bytes (bswap_32 (ucast (push_bit 3 len)))
   = be64 (len * 8)"
  using byte_of_length_hi [of 0 len] byte_of_length_hi [of 1 len]
    byte_of_length_hi [of 2 len] byte_of_length_hi [of 3 len]
    byte_of_length_lo [of 0 len] byte_of_length_lo [of 1 len]
    byte_of_length_lo [of 2 len] byte_of_length_lo [of 3 len]
  by (simp add: le_bytes_def be64_def upt_8 byte_of_bswap_32)

lemma length_zero_words [simp]: "length (zero_words m i n) = length m"
proof -
  have "length (fold (\<lambda>i m. m[i := 0]) xs m) = length m" for xs :: "nat list"
    by (induction xs arbitrary: m) simp_all
  then show ?thesis by (simp add: zero_words_def)
qed

lemma nth_zero_words:
  "j < length m \<Longrightarrow> zero_words m i n ! j = (if i \<le> j \<and> j < n then 0 else m ! j)"
proof (induction n)
  case 0
  then show ?case by (simp add: zero_words_def)
next
  case (Suc n)
  show ?case
  proof (cases "i \<le> n")
    case True
    then have "zero_words m i (Suc n) = (zero_words m i n)[n := 0]"
      by (simp add: zero_words_def)
    moreover have "zero_words m i n ! j = (if i \<le> j \<and> j < n then 0 else m ! j)"
      using Suc by simp
    ultimately show ?thesis using Suc.prems True
      by (cases "j = n") (simp_all add: nth_list_update)
  next
    case False
    then have "zero_words m i (Suc n) = m" "zero_words m i n = m"
      by (simp_all add: zero_words_def)
    then show ?thesis using False by auto
  qed
qed

text \<open>The index and the shift of \<^verbatim>\<open>Hash_Final\<close>.\<close>

lemma unat_final_index:
  "unat (drop_bit 2 ((ucast (len :: uint64_t) :: uint32_t) AND 63)) = unat len mod 64 div 4"
  by (simp add: drop_bit_eq_div unat_div unat_and_63)

lemma unat_final_shift:
  "unat (((ucast (len :: uint64_t) :: uint32_t) AND 3) * 8) = 8 * (unat len mod 64 mod 4)"
proof -
  have "unat len mod 64 mod 4 = unat len mod 4" by (rule mod_mod_cancel) simp
  moreover have "unat len mod 4 * 8 < 2 ^ 32"
    by (rule less_trans [of _ 32]) simp_all
  ultimately show ?thesis
    by (simp add: unat_word_ariths unat_and_3 mult.commute)
qed

lemma final_index_Suc:
  fixes len :: uint64_t
  defines "index \<equiv> drop_bit 2 ((ucast len :: uint32_t) AND 63)"
  shows "unat (index + 1) = unat len mod 64 div 4 + 1"
    and "index + 1 > 14 \<longleftrightarrow> 56 \<le> unat len mod 64"
proof -
  have u: "unat index = unat len mod 64 div 4" unfolding index_def by (rule unat_final_index)
  have "unat len mod 64 div 4 < 16" by simp
  then have "unat index + 1 < 2 ^ 32" using u by simp
  then show s: "unat (index + 1) = unat len mod 64 div 4 + 1"
    using u by (simp add: unat_word_ariths)
  show "index + 1 > 14 \<longleftrightarrow> 56 \<le> unat len mod 64"
    unfolding word_less_nat_alt s by auto
qed

lemma Hash_Final_unfold:
  assumes "length (message ctx) = 16"
  defines "L \<equiv> unat (length_bytes ctx) mod 64"
  defines "m1 \<equiv> (message ctx)[L div 4 := pad_word (message ctx ! (L div 4)) (L mod 4)]"
  shows "Hash_Final ctx =
    (if 56 \<le> L
     then (let m2 = zero_words m1 (L div 4 + 1) 16;
               h1 = sha256_process_block (hash ctx) m2;
               m4 = (zero_words m2 0 14)[14 := length_words (length_bytes ctx) ! 0,
                                         15 := length_words (length_bytes ctx) ! 1];
               h = map bswap_32 (sha256_process_block h1 m4)
           in (ctx\<lparr>message := m4, hash := h\<rparr>,
               take (unat (digest_length ctx)) (bytes_of_words h)))
     else (let m3 = (zero_words m1 (L div 4 + 1) 14)[14 := length_words (length_bytes ctx) ! 0,
                                                     15 := length_words (length_bytes ctx) ! 1];
               h = map bswap_32 (sha256_process_block (hash ctx) m3)
           in (ctx\<lparr>message := m3, hash := h\<rparr>,
               take (unat (digest_length ctx)) (bytes_of_words h))))"
proof -
  define index where "index = drop_bit 2 ((ucast (length_bytes ctx) :: uint32_t) AND 63)"
  define shift where "shift = ((ucast (length_bytes ctx) :: uint32_t) AND 3) * 8"
  have i: "L div 4 < length (message ctx)" using assms(1) unfolding L_def by simp
  have ui: "unat index = L div 4"
    unfolding index_def L_def by (rule unat_final_index)
  have us: "unat shift = 8 * (L mod 4)"
    unfolding shift_def L_def by (rule unat_final_shift)
  have ui1: "unat (index + 1) = L div 4 + 1" and gt: "index + 1 > 14 \<longleftrightarrow> 56 \<le> L"
    unfolding index_def L_def by (rule final_index_Suc)+
  have "Hash_Final ctx =
     (let m = message ctx;
          m = m[unat index := m ! unat index AND NOT (push_bit (unat shift) 0xFFFFFFFF)];
          m = m[unat index := m ! unat index XOR push_bit (unat shift) 0x80];
          index = index + 1;
          (m, h, index) =
            (if index > 14
             then (let m = zero_words m (unat index) 16
                   in (m, sha256_process_block (hash ctx) m, 0))
             else (m, hash ctx, index));
          m = zero_words m (unat index) 14;
          m = m[14 := bswap_32 (ucast (drop_bit 29 (length_bytes ctx)))];
          m = m[15 := bswap_32 (ucast (push_bit 3 (length_bytes ctx)))];
          h = sha256_process_block h m;
          h = map bswap_32 h
      in (ctx\<lparr>message := m, hash := h\<rparr>,
          take (unat (digest_length ctx)) (bytes_of_words h)))"
    unfolding Hash_Final_def index_def shift_def Let_def ..
  then show ?thesis
    using i
    by (simp add: Let_def ui us ui1 gt m1_def pad_word_def length_words_def)
qed

lemma bytes_of_words_take: "bytes_of_words (take k ws) = take (4 * k) (bytes_of_words ws)"
proof (induction ws arbitrary: k)
  case Nil then show ?case by simp
next
  case (Cons w ws)
  show ?case
  proof (cases k)
    case 0 then show ?thesis by simp
  next
    case (Suc j)
    then show ?thesis using Cons [of j] by (simp add: bytes_of_words_Cons)
  qed
qed

lemma bytes_of_words_replicate_0: "bytes_of_words (replicate k 0) = replicate (4 * k) 0"
proof (induction k)
  case 0 then show ?case by simp
next
  case (Suc k)
  have "replicate (4 * Suc k) (0 :: uint8_t) = replicate 4 0 @ replicate (4 * k) 0"
    by (simp add: replicate_add [symmetric])
  moreover have "replicate 4 (0 :: uint8_t) = [0, 0, 0, 0]"
    by (simp add: numeral_eq_Suc)
  ultimately show ?case using Suc by (simp add: bytes_of_words_Cons)
qed

lemma bytes_of_words_nth_block:
  "i < length ws \<Longrightarrow> take 4 (drop (4 * i) (bytes_of_words ws)) = le_bytes (ws ! i)"
proof (induction ws arbitrary: i)
  case Nil then show ?case by simp
next
  case (Cons x xs)
  show ?case
  proof (cases i)
    case 0 then show ?thesis by (simp add: bytes_of_words_Cons)
  next
    case (Suc j)
    with Cons.prems have "j < length xs" by simp
    from Cons.IH [OF this] Suc show ?thesis
      by (simp add: bytes_of_words_Cons)
  qed
qed

lemma length_length_words [simp]: "length (length_words len) = 2"
  by (simp add: length_words_def)

lemma bytes_of_length_words: "bytes_of_words (length_words len) = be64 (len * 8)"
  using le_bytes_length_words [of len]
  by (simp add: length_words_def bytes_of_words_Cons)

lemma length_be64 [simp]: "length (be64 x) = 8"
  by (simp add: be64_def)

lemma padding_head:
  assumes "L div 4 < length m"
  shows "bytes_of_words (take (L div 4) m @ [pad_word (m ! (L div 4)) (L mod 4)])
         = take L (bytes_of_words m) @ [0x80] @ replicate (3 - L mod 4) 0"
proof -
  let ?bs = "bytes_of_words m"
  have r: "L mod 4 < 4" by simp
  have blk: "le_bytes (m ! (L div 4)) = take 4 (drop (4 * (L div 4)) ?bs)"
    using assms by (rule bytes_of_words_nth_block [symmetric])
  have "take (4 * (L div 4)) ?bs @ take (L mod 4) (drop (4 * (L div 4)) ?bs)
        = take (4 * (L div 4) + L mod 4) ?bs"
    by (rule take_add [symmetric])
  then have tk: "take (4 * (L div 4)) ?bs @ take (L mod 4) (le_bytes (m ! (L div 4))) = take L ?bs"
    by (simp add: blk min_def)
  have "bytes_of_words (take (L div 4) m @ [pad_word (m ! (L div 4)) (L mod 4)])
        = take (4 * (L div 4)) ?bs
          @ (take (L mod 4) (le_bytes (m ! (L div 4))) @ [0x80] @ replicate (3 - L mod 4) 0)"
    unfolding pad_word_def bytes_of_words_append bytes_of_words_take le_bytes_pad_word [OF r, symmetric]
    by (simp add: bytes_of_words_Cons)
  also have "\<dots> = take L ?bs @ [0x80] @ replicate (3 - L mod 4) 0"
    using tk by simp
  finally show ?thesis .
qed

lemma final_block_short:
  assumes len: "length m = 16" and L: "L < 56"
  shows "(zero_words (m[L div 4 := w]) (L div 4 + 1) 14)[14 := lw ! 0, 15 := lw ! 1]
         = take (L div 4) m @ [w] @ replicate (13 - L div 4) 0 @ [lw ! 0, lw ! 1]"
    (is "?lhs = ?rhs")
proof (rule nth_equalityI)
  have i: "L div 4 < 14" using L by simp
  show "length ?lhs = length ?rhs" using len i by simp
  fix j assume "j < length ?lhs"
  then have j: "j < 16" using len by simp
  consider "j < L div 4" | "j = L div 4" | "L div 4 < j" "j < 14" | "j = 14" | "j = 15"
    using j by linarith
  then show "?lhs ! j = ?rhs ! j"
  proof cases
    case 1 then show ?thesis using len i j by (simp add: nth_list_update nth_zero_words nth_append)
  next
    case 2 then show ?thesis using len i j by (simp add: nth_list_update nth_zero_words nth_append)
  next
    case 3
    then have "j - Suc (L div 4) < 13 - L div 4" by linarith
    then show ?thesis using 3 len i j by (simp add: nth_list_update nth_zero_words nth_append)
  next
    case 4 then show ?thesis using len i j by (simp add: nth_list_update nth_zero_words nth_append)
  next
    case 5
    have "\<not> 14 - L div 4 < 13 - L div 4" using i by linarith
    then show ?thesis using 5 len i j by (simp add: nth_list_update nth_zero_words nth_append)
  qed
qed

lemma final_block_long_1:
  assumes len: "length m = 16" and L: "56 \<le> L" "L < 64"
  shows "zero_words (m[L div 4 := w]) (L div 4 + 1) 16
         = take (L div 4) m @ [w] @ replicate (15 - L div 4) 0"
    (is "?lhs = ?rhs")
proof (rule nth_equalityI)
  have i: "14 \<le> L div 4" "L div 4 < 16" using L by simp_all
  show "length ?lhs = length ?rhs" using len i by simp
  fix j assume "j < length ?lhs"
  then have j: "j < 16" using len by simp
  consider "j < L div 4" | "j = L div 4" | "L div 4 < j"
    by linarith
  then show "?lhs ! j = ?rhs ! j"
  proof cases
    case 1 then show ?thesis using len i j by (simp add: nth_list_update nth_zero_words nth_append)
  next
    case 2 then show ?thesis using len i j by (simp add: nth_list_update nth_zero_words nth_append)
  next
    case 3 then show ?thesis using len i j by (simp add: nth_list_update nth_zero_words nth_append)
  qed
qed

lemma final_block_long_2:
  assumes len: "length m = 16"
  shows "(zero_words m 0 14)[14 := lw ! 0, 15 := lw ! 1] = replicate 14 0 @ [lw ! 0, lw ! 1]"
    (is "?lhs = ?rhs")
proof (rule nth_equalityI)
  show "length ?lhs = length ?rhs" using len by simp
  fix j assume "j < length ?lhs"
  then have j: "j < 16" using len by simp
  consider "j < 14" | "j = 14" | "j = 15"
    using j by linarith
  then show "?lhs ! j = ?rhs ! j"
  proof cases
    case 1 then show ?thesis using len j by (simp add: nth_list_update nth_zero_words nth_append)
  next
    case 2 then show ?thesis using len j by (simp add: nth_list_update nth_zero_words nth_append)
  next
    case 3 then show ?thesis using len j by (simp add: nth_list_update nth_zero_words nth_append)
  qed
qed

lemma length_words_eq: "[length_words len ! 0, length_words len ! 1] = length_words len"
  by (simp add: length_words_def)

lemma absorb_one_block:
  "length b = 64 \<Longrightarrow> absorb h b = sha256_process_block h (words_of_bytes b)"
  using absorb_block [of b h "[]"] by (simp add: absorb_short)

lemma absorb_two_blocks:
  "length b1 = 64 \<Longrightarrow> length b2 = 64 \<Longrightarrow>
   absorb h (b1 @ b2)
   = sha256_process_block (sha256_process_block h (words_of_bytes b1)) (words_of_bytes b2)"
  by (simp add: absorb_block absorb_one_block)

lemma Hash_Final_padded:
  assumes ok: "ctx_ok ctx"
  defines "L \<equiv> unat (length_bytes ctx) mod 64"
  defines "pad \<equiv> padded (take L (bytes_of_words (message ctx))) (length_bytes ctx)"
  shows "fst (Hash_Final ctx) =
           ctx\<lparr>message := words_of_bytes (drop (length pad - 64) pad),
               hash := map bswap_32 (absorb (hash ctx) pad)\<rparr>"
    and "length pad = (if L \<le> 55 then 64 else 128)"
    and "unat (digest_length ctx) \<le> 32 \<Longrightarrow>
         snd (Hash_Final ctx) =
           take (unat (digest_length ctx)) (bytes_of_words (map bswap_32 (absorb (hash ctx) pad)))"
proof -
  let ?m = "message ctx" and ?len = "length_bytes ctx"
  let ?bs = "bytes_of_words ?m"
  let ?pw = "pad_word (?m ! (L div 4)) (L mod 4)"
  let ?m1 = "?m[L div 4 := ?pw]"
  from ok have lm: "length ?m = 16" by (simp add: ctx_ok_def)
  have L: "L < 64" unfolding L_def by simp
  have i: "L div 4 < length ?m" using L lm by simp
  have lP: "length (take L ?bs) = L" using L lm by simp
  have Ldec: "4 * (L div 4) + L mod 4 = L" by simp
  note head = padding_head [OF i]
  note U = Hash_Final_unfold [OF lm, folded L_def]
  have "Hash_Final ctx =
           (ctx\<lparr>message := words_of_bytes (drop (length pad - 64) pad),
                hash := map bswap_32 (absorb (hash ctx) pad)\<rparr>,
            take (unat (digest_length ctx)) (bytes_of_words (map bswap_32 (absorb (hash ctx) pad))))
        \<and> length pad = (if L \<le> 55 then 64 else 128)"
  proof (cases "56 \<le> L")
    case False
    then have L55: "L < 56" by simp
    let ?m3 = "(zero_words ?m1 (L div 4 + 1) 14)[14 := length_words ?len ! 0, 15 := length_words ?len ! 1]"
    have z: "(119 - L) mod 64 = 55 - L" using L55 by (simp add: mod_if)
    have zz: "3 - L mod 4 + 4 * (13 - L div 4) = 55 - L" using L55 Ldec by linarith
    have "?m3 = (take (L div 4) ?m @ [?pw]) @ replicate (13 - L div 4) 0 @ length_words ?len"
      using final_block_short [OF lm L55, of ?pw "length_words ?len"]
      by (simp only: length_words_eq append_assoc)
    then have "bytes_of_words ?m3
               = (take L ?bs @ [0x80] @ replicate (3 - L mod 4) 0)
                 @ replicate (4 * (13 - L div 4)) 0 @ be64 (?len * 8)"
      by (simp only: bytes_of_words_append [of "take (L div 4) ?m @ [?pw]"]
            bytes_of_words_append [of "replicate (13 - L div 4) 0"]
            head bytes_of_words_replicate_0 bytes_of_length_words)
    also have "\<dots> = take L ?bs @ [0x80] @ replicate (3 - L mod 4 + 4 * (13 - L div 4)) 0
                      @ be64 (?len * 8)"
      by (simp only: replicate_add append_assoc)
    also have "\<dots> = pad"
      unfolding pad_def padded_def lP z zz ..
    finally have b3: "bytes_of_words ?m3 = pad" .
    then have m3: "?m3 = words_of_bytes pad" by (rule words_of_bytes_inj)
    have lpad: "length pad = 64"
      using L55 unfolding pad_def padded_def lP z by (simp add: lm)
    have ab: "absorb (hash ctx) pad = sha256_process_block (hash ctx) ?m3"
      unfolding m3 using lpad by (rule absorb_one_block)
    show ?thesis
      using False L55 lpad by (simp add: U Let_def ab flip: m3)
  next
    case True
    let ?m2 = "zero_words ?m1 (L div 4 + 1) 16"
    let ?m4 = "(zero_words ?m2 0 14)[14 := length_words ?len ! 0, 15 := length_words ?len ! 1]"
    have z: "(119 - L) mod 64 = 119 - L" using True by simp
    have zz: "3 - L mod 4 + 4 * (15 - L div 4) = 63 - L" using True L Ldec by linarith
    have "?m2 = (take (L div 4) ?m @ [?pw]) @ replicate (15 - L div 4) 0"
      using final_block_long_1 [OF lm True L, of ?pw] by (simp only: append_assoc)
    then have "bytes_of_words ?m2
               = (take L ?bs @ [0x80] @ replicate (3 - L mod 4) 0) @ replicate (4 * (15 - L div 4)) 0"
      by (simp only: bytes_of_words_append [of "take (L div 4) ?m @ [?pw]"]
            head bytes_of_words_replicate_0)
    also have "\<dots> = take L ?bs @ [0x80] @ replicate (3 - L mod 4 + 4 * (15 - L div 4)) 0"
      by (simp only: replicate_add append_assoc)
    finally have b2: "bytes_of_words ?m2 = take L ?bs @ [0x80] @ replicate (63 - L) 0"
      unfolding zz .
    have lm2: "length ?m2 = 16" using lm by simp
    have "?m4 = replicate 14 0 @ length_words ?len"
      using final_block_long_2 [OF lm2, of "length_words ?len"]
      by (simp only: length_words_eq)
    then have b4: "bytes_of_words ?m4 = replicate 56 0 @ be64 (?len * 8)"
      by (simp only: bytes_of_words_append bytes_of_words_replicate_0 bytes_of_length_words) simp
    have "119 - L = (63 - L) + 56" using L by simp
    then have "pad = (take L ?bs @ [0x80] @ replicate (63 - L) 0) @ (replicate 56 0 @ be64 (?len * 8))"
      unfolding pad_def padded_def lP z by (simp only: replicate_add append_assoc)
    then have split: "pad = bytes_of_words ?m2 @ bytes_of_words ?m4"
      by (simp only: b2 b4)
    have l2: "length (bytes_of_words ?m2) = 64" and l4: "length (bytes_of_words ?m4) = 64"
      using lm by simp_all
    have lpad: "length pad = 128" unfolding split using l2 l4 by simp
    have dr: "drop (length pad - 64) pad = bytes_of_words ?m4"
      unfolding lpad unfolding split using l2 by simp
    have ab: "absorb (hash ctx) pad
              = sha256_process_block (sha256_process_block (hash ctx) ?m2) ?m4"
      unfolding split using absorb_two_blocks [OF l2 l4, of "hash ctx"]
      by (simp only: words_of_bytes_of_words)
    show ?thesis
      using True unfolding dr by (simp add: U Let_def ab lpad words_of_bytes_of_words)
  qed
  then show "fst (Hash_Final ctx) =
           ctx\<lparr>message := words_of_bytes (drop (length pad - 64) pad),
               hash := map bswap_32 (absorb (hash ctx) pad)\<rparr>"
    and "length pad = (if L \<le> 55 then 64 else 128)"
    and "snd (Hash_Final ctx) =
           take (unat (digest_length ctx)) (bytes_of_words (map bswap_32 (absorb (hash ctx) pad)))"
    by simp_all
qed

subsection \<open>The compression function against its reference\<close>

text \<open>The macros against the functions of the standard.\<close>

lemma ROTR32_rotr: "ROTR32 x n = fips_rotr x n" if "n < 32"
proof (rule bit_word_eqI)
  fix k assume k: "k < LENGTH(32)"
  show "bit (ROTR32 x n) k = bit (fips_rotr x n) k"
  proof (cases "k + n < 32")
    case True
    then show ?thesis using k that
      by (auto simp: ROTR32_def fips_rotr_def bit_simps add.commute dest: bit_imp_le_length)
  next
    case False
    then have "(k + n) mod 32 = k + n - 32" using k that by (simp add: mod_if)
    moreover have "k - (32 - n) = k + n - 32" using False that by linarith
    ultimately show ?thesis using k that False
      by (auto simp: ROTR32_def fips_rotr_def bit_simps add.commute dest: bit_imp_le_length)
  qed
qed

lemma Ch_fips: "Ch x y z = fips_Ch x y z"
  by (rule bit_word_eqI) (auto simp: Ch_def fips_Ch_def bit_simps)

lemma Maj_fips: "Maj x y z = fips_Maj x y z"
  by (rule bit_word_eqI) (auto simp: Maj_def fips_Maj_def bit_simps)

lemma Sigma_fips:
  "Sigma0 x = fips_Sigma0 x" "Sigma1 x = fips_Sigma1 x"
  "sigma0 x = fips_sigma0 x" "sigma1 x = fips_sigma1 x"
  by (simp_all add: Sigma0_def Sigma1_def sigma0_def sigma1_def fips_Sigma0_def fips_Sigma1_def
        fips_sigma0_def fips_sigma1_def ROTR32_rotr)

lemma bswap_32_le_word: "bswap_32 (le_word bs) = be_word bs"
proof -
  define x where "x = le_word [bs ! 0, bs ! 1, bs ! 2, bs ! 3]"
  have x: "le_word bs = x" by (simp add: x_def le_word_def)
  have b: "byte_of x 0 = bs ! 0" "byte_of x (Suc 0) = bs ! 1" "byte_of x 2 = bs ! 2" "byte_of x 3 = bs ! 3"
    unfolding x_def by (simp_all add: byte_of_le_word)
  have "bswap_32 x = le_word (le_bytes (bswap_32 x))" by (simp add: le_word_le_bytes)
  also have "le_bytes (bswap_32 x) = [bs ! 3, bs ! 2, bs ! 1, bs ! 0]"
    by (simp add: le_bytes_def byte_of_bswap_32 b)
  also have "le_word [bs ! 3, bs ! 2, bs ! 1, bs ! 0] = be_word bs"
    by (simp add: le_word_def be_word_def ac_simps)
  finally show ?thesis by (simp add: x)
qed

lemma words_of_bytes_nth:
  "i < length bs div 4 \<Longrightarrow> words_of_bytes bs ! i = le_word (take 4 (drop (4 * i) bs))"
proof (induction bs arbitrary: i rule: words_of_bytes.induct)
  case (1 b0 b1 b2 b3 bs)
  show ?case
  proof (cases i)
    case 0 then show ?thesis by simp
  next
    case (Suc j)
    then have "j < length bs div 4" using "1.prems" by simp
    moreover have "drop (4 + 4 * j) (b0 # b1 # b2 # b3 # bs) = drop (4 * j) (drop 4 (b0 # b1 # b2 # b3 # bs))"
      by (simp only: drop_drop add.commute)
    ultimately show ?thesis using "1.IH" Suc by simp
  qed
qed simp_all

lemma upt_16: "[0..<16] = [0, 1, 2, 3, 4, 5, 6, 7, 8, 9, 10, 11, 12, 13, 14, 15]"
  by (simp add: upt_rec)

lemma fips_block_words_eq:
  assumes "length block = 64"
  shows "fips_block_words block = map bswap_32 (words_of_bytes block)"
proof (rule nth_equalityI)
  show "length (fips_block_words block) = length (map bswap_32 (words_of_bytes block))"
    using assms by (simp add: fips_block_words_def)
  fix i assume "i < length (fips_block_words block)"
  then have i: "i < 16" by (simp add: fips_block_words_def)
  then have "words_of_bytes block ! i = le_word (take 4 (drop (4 * i) block))"
    using assms by (intro words_of_bytes_nth) simp
  then show "fips_block_words block ! i = map bswap_32 (words_of_bytes block) ! i"
    using i assms by (simp add: fips_block_words_def bswap_32_le_word)
qed

lemma rounds_1_16_lines: "rounds_1_16 block = run (map (line_1_16 block) [0..<16])"
  by (simp add: rounds_1_16_def upt_16 line_1_16_def roles_def)

lemma rounds_17_64_lines: "rounds_17_64 k = run (map (line_17_64 k) [0..<16])"
  by (simp add: rounds_17_64_def upt_16 line_17_64_def roles_def)

lemma run_snoc: "run (xs @ [x]) s = x (run xs s)"
  by (simp add: run_def)

lemma run_map_Suc: "run (map f [0..<Suc n]) s = f n (run (map f [0..<n]) s)"
  by (simp add: run_snoc)

lemma ROUND_fips:
  "view (Suc n) (ROUND (roles n ! 0) (roles n ! 1) (roles n ! 2) (roles n ! 3)
       (roles n ! 4) (roles n ! 5) (roles n ! 6) (roles n ! 7) k w v)
   = fips_round k w (view n v)"
proof -
  have "n mod 8 < 8" by simp
  then consider "n mod 8 = 0" | "n mod 8 = 1" | "n mod 8 = 2" | "n mod 8 = 3"
    | "n mod 8 = 4" | "n mod 8 = 5" | "n mod 8 = 6" | "n mod 8 = 7"
    by linarith
  then show ?thesis
    by cases
      (simp_all add: view_def roles_def mod_Suc ROUND_def fips_round_def Let_def
         Ch_fips Maj_fips Sigma_fips)
qed

lemma view_16: "view 16 v = view 0 v"
  by (simp add: view_def roles_def)

lemma line_1_16_props:
  "vars (line_1_16 block n s)
     = ROUND (roles n ! 0) (roles n ! 1) (roles n ! 2) (roles n ! 3)
         (roles n ! 4) (roles n ! 5) (roles n ! 6) (roles n ! 7)
         (rhash_k256 ! n) ((W s)[n := bswap_32 (block ! n)] ! n) (vars s)"
  "W (line_1_16 block n s) = (W s)[n := bswap_32 (block ! n)]"
  by (simp_all add: line_1_16_def ROUND_1_16_def Let_def)

lemma line_17_64_props:
  "vars (line_17_64 k n s)
     = ROUND (roles n ! 0) (roles n ! 1) (roles n ! 2) (roles n ! 3)
         (roles n ! 4) (roles n ! 5) (roles n ! 6) (roles n ! 7)
         (k ! n) (RECALCULATE_W (W s) (int n) ! n) (vars s)"
  "W (line_17_64 k n s) = RECALCULATE_W (W s) (int n)"
  by (simp_all add: line_17_64_def ROUND_17_64_def Let_def)

lemma run_1_16:
  assumes "length (W s0) = 16" "n \<le> 16"
  shows "view n (vars (run (map (line_1_16 block) [0..<n]) s0))
           = fold (\<lambda>t. fips_round (rhash_k256 ! t) (bswap_32 (block ! t))) [0..<n] (view 0 (vars s0))
         \<and> length (W (run (map (line_1_16 block) [0..<n]) s0)) = 16
         \<and> (\<forall>j<n. W (run (map (line_1_16 block) [0..<n]) s0) ! j = bswap_32 (block ! j))"
  using assms(2)
proof (induction n)
  case 0
  then show ?case using assms(1) by (simp add: run_def)
next
  case (Suc n)
  let ?s = "run (map (line_1_16 block) [0..<n]) s0"
  from Suc have IH: "view n (vars ?s)
           = fold (\<lambda>t. fips_round (rhash_k256 ! t) (bswap_32 (block ! t))) [0..<n] (view 0 (vars s0))"
    and len: "length (W ?s) = 16"
    and Wj: "\<forall>j<n. W ?s ! j = bswap_32 (block ! j)"
    by simp_all
  have n: "n < 16" using Suc.prems by simp
  have "(W ?s)[n := bswap_32 (block ! n)] ! n = bswap_32 (block ! n)"
    using n len by simp
  then have 1: "view (Suc n) (vars (line_1_16 block n ?s))
           = fips_round (rhash_k256 ! n) (bswap_32 (block ! n)) (view n (vars ?s))"
    by (simp only: line_1_16_props ROUND_fips)
  have 2: "\<forall>j<Suc n. W (line_1_16 block n ?s) ! j = bswap_32 (block ! j)"
    using n len Wj by (auto simp: line_1_16_props nth_list_update less_Suc_eq)
  show ?case
    unfolding run_map_Suc using 1 2 len IH by (simp add: line_1_16_props)
qed

text \<open>The circular buffer: the index arithmetic of \<^verbatim>\<open>RECALCULATE_W\<close>.\<close>

lemma int_and_15: "nat ((int n - int d) AND 15) = (n + 16 - d) mod 16" if "d \<le> 16"
proof -
  have "(int n - int d) AND 15 = (int n - int d) AND mask 4"
    by (simp add: mask_eq_exp_minus_1)
  also have "\<dots> = take_bit 4 (int n - int d)"
    by (simp only: take_bit_eq_mask)
  also have "\<dots> = (int n - int d) mod 16"
    by (simp add: take_bit_eq_mod)
  also have "\<dots> = (int n - int d + 16) mod 16" by simp
  also have "int n - int d + 16 = int (n + 16 - d)" using that by simp
  also have "int (n + 16 - d) mod 16 = int ((n + 16 - d) mod 16)"
    by (simp add: zmod_int)
  finally show ?thesis by simp
qed

lemma RECALCULATE_W_window:
  assumes len: "length Wc = 16" and n: "n < 16" and i: "16 \<le> i"
    and win: "\<forall>j<16. Wc ! j = (if j < n then fips_W w (i + j) else fips_W w (i + j - 16))"
  shows "RECALCULATE_W Wc (int n) = Wc[n := fips_W w (i + n)]"
proof -
  have at: "Wc ! ((n + 16 - d) mod 16) = fips_W w (i + n - d)" if d: "0 < d" "d \<le> 16" for d
  proof (cases "d \<le> n")
    case True
    then have "(n + 16 - d) mod 16 = n - d" using n by (simp add: mod_if)
    moreover have "n - d < n" "n - d < 16" using True d n by simp_all
    moreover have "i + (n - d) = i + n - d" using True by simp
    ultimately show ?thesis using win by simp
  next
    case False
    then have e: "(n + 16 - d) mod 16 = n + 16 - d" using d by simp
    have "\<not> n + 16 - d < n" "n + 16 - d < 16" using False d by simp_all
    moreover have "i + (n + 16 - d) - 16 = i + n - d" using False d i by simp
    ultimately show ?thesis using win e by simp
  qed
  have a2: "nat ((int n - 2) AND 15) = (n + 16 - 2) mod 16"
    using int_and_15 [of 2 n] by simp
  have a7: "nat ((int n - 7) AND 15) = (n + 16 - 7) mod 16"
    using int_and_15 [of 7 n] by simp
  have a15: "nat ((int n - 15) AND 15) = (n + 16 - 15) mod 16"
    using int_and_15 [of 15 n] by simp
  have w16: "Wc ! n = fips_W w (i + n - 16)" using at [of 16] n by simp
  have "fips_W w (i + n) = fips_sigma1 (fips_W w (i + n - 2)) + fips_W w (i + n - 7)
           + fips_sigma0 (fips_W w (i + n - 15)) + fips_W w (i + n - 16)"
    using i by (subst fips_W.simps) simp
  then show ?thesis
    unfolding RECALCULATE_W_def a2 a7 a15
    using at [of 2] at [of 7] at [of 15] w16
    by (simp add: Sigma_fips ac_simps)
qed

lemma length_rhash_k256 [simp]: "length rhash_k256 = 64"
  by (simp add: rhash_k256_def)

lemma run_17_64:
  assumes len0: "length (W s0) = 16" and i: "16 \<le> i" "i \<le> 48"
    and win0: "\<forall>j<16. W s0 ! j = fips_W w (i + j - 16)"
    and n: "n \<le> 16"
  defines "k \<equiv> drop i rhash_k256"
  shows "view n (vars (run (map (line_17_64 k) [0..<n]) s0))
           = fold (\<lambda>t. fips_round (rhash_k256 ! (i + t)) (fips_W w (i + t))) [0..<n] (view 0 (vars s0))
         \<and> length (W (run (map (line_17_64 k) [0..<n]) s0)) = 16
         \<and> (\<forall>j<16. W (run (map (line_17_64 k) [0..<n]) s0) ! j
                      = (if j < n then fips_W w (i + j) else fips_W w (i + j - 16)))"
  using n
proof (induction n)
  case 0
  then show ?case using len0 win0 by (simp add: run_def)
next
  case (Suc n)
  let ?s = "run (map (line_17_64 k) [0..<n]) s0"
  from Suc have IH: "view n (vars ?s)
           = fold (\<lambda>t. fips_round (rhash_k256 ! (i + t)) (fips_W w (i + t))) [0..<n] (view 0 (vars s0))"
    and len: "length (W ?s) = 16"
    and win: "\<forall>j<16. W ?s ! j = (if j < n then fips_W w (i + j) else fips_W w (i + j - 16))"
    by simp_all
  have n: "n < 16" using Suc.prems by simp
  have R: "RECALCULATE_W (W ?s) (int n) = (W ?s)[n := fips_W w (i + n)]"
    using len n i(1) win by (rule RECALCULATE_W_window)
  have kn: "k ! n = rhash_k256 ! (i + n)"
    unfolding k_def using i n by (simp add: nth_drop)
  have "(W ?s)[n := fips_W w (i + n)] ! n = fips_W w (i + n)"
    using n len by simp
  then have 1: "view (Suc n) (vars (line_17_64 k n ?s))
           = fips_round (rhash_k256 ! (i + n)) (fips_W w (i + n)) (view n (vars ?s))"
    by (simp only: line_17_64_props ROUND_fips R kn)
  have 2: "\<forall>j<16. W (line_17_64 k n ?s) ! j
                  = (if j < Suc n then fips_W w (i + j) else fips_W w (i + j - 16))"
    using n len win by (auto simp: line_17_64_props R nth_list_update less_Suc_eq)
  have 3: "length (W (line_17_64 k n ?s)) = 16"
    using len by (simp add: line_17_64_props R)
  show ?case
    unfolding run_map_Suc using 1 2 3 IH by simp
qed

lemma fold_shift:
  "fold (\<lambda>t. f (i + t)) [0..<n] s = fold f [i..<i + n] s"
proof -
  have "[i..<i + n] = map (\<lambda>t. i + t) [0..<n]"
    by (induction n) simp_all
  then show ?thesis by (simp add: fold_map comp_def)
qed

lemma rounds_17_64_fips:
  assumes len0: "length (W s0) = 16" and i: "16 \<le> i" "i \<le> 48"
    and win0: "\<forall>j<16. W s0 ! j = fips_W w (i + j - 16)"
  shows "view 0 (vars (rounds_17_64 (drop i rhash_k256) s0))
           = fold (\<lambda>t. fips_round (rhash_k256 ! t) (fips_W w t)) [i..<i + 16] (view 0 (vars s0))"
    and "length (W (rounds_17_64 (drop i rhash_k256) s0)) = 16"
    and "\<forall>j<16. W (rounds_17_64 (drop i rhash_k256) s0) ! j = fips_W w (i + 16 + j - 16)"
proof -
  have fs: "fold (\<lambda>t. fips_round (rhash_k256 ! (i + t)) (fips_W w (i + t))) [0..<16] s
            = fold (\<lambda>t. fips_round (rhash_k256 ! t) (fips_W w t)) [i..<i + 16] s" for s
    by (rule fold_shift [of "\<lambda>t. fips_round (rhash_k256 ! t) (fips_W w t)"])
  note R = run_17_64 [OF len0 i win0, of 16]
  show "view 0 (vars (rounds_17_64 (drop i rhash_k256) s0))
           = fold (\<lambda>t. fips_round (rhash_k256 ! t) (fips_W w t)) [i..<i + 16] (view 0 (vars s0))"
    using R by (simp add: rounds_17_64_lines view_16 fs)
  show "length (W (rounds_17_64 (drop i rhash_k256) s0)) = 16"
    using R by (simp add: rounds_17_64_lines)
  show "\<forall>j<16. W (rounds_17_64 (drop i rhash_k256) s0) ! j = fips_W w (i + 16 + j - 16)"
    using R by (simp add: rounds_17_64_lines)
qed

lemma rounds_1_16_fips:
  assumes len0: "length (W s0) = 16" and w: "w = map bswap_32 block" and lb: "length block = 16"
  shows "view 0 (vars (rounds_1_16 block s0))
           = fold (\<lambda>t. fips_round (rhash_k256 ! t) (fips_W w t)) [0..<16] (view 0 (vars s0))"
    and "length (W (rounds_1_16 block s0)) = 16"
    and "\<forall>j<16. W (rounds_1_16 block s0) ! j = fips_W w (16 + j - 16)"
proof -
  have eq: "fold (\<lambda>t. fips_round (rhash_k256 ! t) (bswap_32 (block ! t))) [0..<16] s
            = fold (\<lambda>t. fips_round (rhash_k256 ! t) (fips_W w t)) [0..<16] s" for s
    by (rule fold_cong) (simp_all add: w lb fips_W.simps)
  note R = run_1_16 [OF len0, of 16 block]
  show "view 0 (vars (rounds_1_16 block s0))
           = fold (\<lambda>t. fips_round (rhash_k256 ! t) (fips_W w t)) [0..<16] (view 0 (vars s0))"
    using R by (simp add: rounds_1_16_lines view_16 eq)
  show "length (W (rounds_1_16 block s0)) = 16"
    using R by (simp add: rounds_1_16_lines)
  show "\<forall>j<16. W (rounds_1_16 block s0) ! j = fips_W w (16 + j - 16)"
    using R by (simp add: rounds_1_16_lines w lb fips_W.simps)
qed

lemma rounds_loop_unfold:
  "rounds_loop 16 (drop 16 rhash_k256) s
   = rounds_17_64 (drop 48 rhash_k256)
       (rounds_17_64 (drop 32 rhash_k256) (rounds_17_64 (drop 16 rhash_k256) s))"
  by (simp add: rounds_loop.simps)

lemma fold_upt_split:
  "a \<le> b \<Longrightarrow> b \<le> c \<Longrightarrow> fold f [a..<c] s = fold f [b..<c] (fold f [a..<b] s)"
proof -
  assume "a \<le> b" "b \<le> c"
  then have "[a..<c] = [a..<b] @ [b..<c]"
    by (metis le_Suc_ex upt_add_eq_append)
  then show ?thesis by simp
qed

lemma sha256_process_block_from_fips:
  assumes lb: "length block = 16" and lw: "length W0 = 16"
  shows "sha256_process_block_from W0 state block =
     (case fold (\<lambda>t. fips_round (rhash_k256 ! t) (fips_W (map bswap_32 block) t)) [0..<64]
             (state ! 0, state ! 1, state ! 2, state ! 3,
              state ! 4, state ! 5, state ! 6, state ! 7) of
        (a, b, c, d, e, f, g, h) \<Rightarrow>
          [state ! 0 + a, state ! 1 + b, state ! 2 + c, state ! 3 + d,
           state ! 4 + e, state ! 5 + f, state ! 6 + g, state ! 7 + h])"
proof -
  define w where "w = map bswap_32 block"
  define rnd where "rnd = (\<lambda>t. fips_round (rhash_k256 ! t) (fips_W w t))"
  define s0 :: locals where "s0 = \<lparr>vars = (\<lambda>_. 0)(A := state ! 0, B := state ! 1, C := state ! 2,
                                  D := state ! 3, E := state ! 4, F := state ! 5,
                                  G := state ! 6, H := state ! 7), W = W0\<rparr>"
  define s1 where "s1 = rounds_1_16 block s0"
  define s2 where "s2 = rounds_17_64 (drop 16 rhash_k256) s1"
  define s3 where "s3 = rounds_17_64 (drop 32 rhash_k256) s2"
  define s4 where "s4 = rounds_17_64 (drop 48 rhash_k256) s3"
  define v0 where "v0 = (state ! 0, state ! 1, state ! 2, state ! 3,
              state ! 4, state ! 5, state ! 6, state ! 7)"
  have l0: "length (W s0) = 16" by (simp add: s0_def lw)
  have view0: "view 0 (vars s0) = v0"
    by (simp add: s0_def v0_def view_def roles_def)
  note r1 = rounds_1_16_fips [OF l0 w_def lb, folded s1_def rnd_def]
  have win1: "\<forall>j<16. W s1 ! j = fips_W w (16 + j - 16)" using r1(3) .
  note r2 = rounds_17_64_fips [OF r1(2) _ _ win1, folded s2_def rnd_def, simplified]
  have win2: "\<forall>j<16. W s2 ! j = fips_W w (32 + j - 16)" using r2(3) by simp
  note r3 = rounds_17_64_fips [OF r2(2) _ _ win2, folded s3_def rnd_def, simplified]
  have win3: "\<forall>j<16. W s3 ! j = fips_W w (48 + j - 16)" using r3(3) by simp
  note r4 = rounds_17_64_fips [OF r3(2) _ _ win3, folded s4_def rnd_def, simplified]
  have "view 0 (vars s4) = fold rnd [48..<64] (fold rnd [32..<48] (fold rnd [16..<32] (fold rnd [0..<16] v0)))"
    using r1(1) r2(1) r3(1) r4(1) view0 by simp
  also have "\<dots> = fold rnd [0..<64] v0"
    using fold_upt_split [of 0 16 64 rnd v0] fold_upt_split [of 16 32 64 rnd "fold rnd [0..<16] v0"]
      fold_upt_split [of 32 48 64 rnd "fold rnd [16..<32] (fold rnd [0..<16] v0)"]
    by simp
  finally have v4: "view 0 (vars s4) = fold rnd [0..<64] v0" .
  have out: "sha256_process_block_from W0 state block =
     [state ! 0 + vars s4 A, state ! 1 + vars s4 B, state ! 2 + vars s4 C,
      state ! 3 + vars s4 D, state ! 4 + vars s4 E, state ! 5 + vars s4 F,
      state ! 6 + vars s4 G, state ! 7 + vars s4 H]"
    unfolding sha256_process_block_from_def Let_def rounds_loop_unfold s4_def s3_def s2_def s1_def s0_def
    by simp
  have "view 0 (vars s4) = (vars s4 A, vars s4 B, vars s4 C, vars s4 D,
                            vars s4 E, vars s4 F, vars s4 G, vars s4 H)"
    by (simp add: view_def roles_def)
  then have "fold rnd [0..<64] v0 = (vars s4 A, vars s4 B, vars s4 C, vars s4 D,
                            vars s4 E, vars s4 F, vars s4 G, vars s4 H)"
    using v4 by simp
  then show ?thesis
    unfolding out by (simp add: rnd_def w_def v0_def)
qed

text \<open>The content of \<^verbatim>\<open>W\<close> on entry does not matter.\<close>

lemma sha256_process_block_from_any:
  assumes "length block = 16" "length W0 = 16"
  shows "sha256_process_block_from W0 state block = sha256_process_block state block"
  unfolding sha256_process_block_def
  by (simp add: sha256_process_block_from_fips assms)

lemma sha256_process_block_fips:
  assumes lb: "length block = 16"
  shows "sha256_process_block state block =
     (case fold (\<lambda>t. fips_round (rhash_k256 ! t) (fips_W (map bswap_32 block) t)) [0..<64]
             (state ! 0, state ! 1, state ! 2, state ! 3,
              state ! 4, state ! 5, state ! 6, state ! 7) of
        (a, b, c, d, e, f, g, h) \<Rightarrow>
          [state ! 0 + a, state ! 1 + b, state ! 2 + c, state ! 3 + d,
           state ! 4 + e, state ! 5 + f, state ! 6 + g, state ! 7 + h])"
  unfolding sha256_process_block_def
  by (rule sha256_process_block_from_fips) (simp_all add: lb)

text \<open>
  Claim C3. For every state and every 64-byte block, \<^verbatim>\<open>sha256_process_block\<close>, with its
  16-word circular buffer \<^verbatim>\<open>W\<close> and its rounds unrolled over rotating variable names,
  returns the state that the reference definition of the specification returns: the one
  that builds the schedule \<open>W[0..63]\<close> by the recurrence, runs the 64 rounds on
  \<open>(a, ..., h)\<close> and adds the working variables to the state. The source receives the
  block as the sixteen words read from memory, the reference as its 64 bytes.
\<close>

theorem process_block_refines_fips:
  assumes "length block = 64"
  shows "sha256_process_block state (words_of_bytes block) = fips_compress state block"
proof -
  have "length (words_of_bytes block) = 16" using assms by simp
  then show ?thesis
    by (simp add: sha256_process_block_fips fips_compress_def fips_block_words_eq [OF assms])
qed

theorem process_block_refines_fips_witness:
  "length (replicate 64 (0x61 :: uint8_t)) = 64
   \<and> sha256_process_block SHA256_H0 (words_of_bytes (replicate 64 0x61))
       = fips_compress SHA256_H0 (replicate 64 0x61)"
proof -
  have a: "length (replicate 64 (0x61 :: uint8_t)) = 64" by simp
  show ?thesis
    using a process_block_refines_fips [OF a] by (rule conjI)
qed

subsection \<open>The digest of a run\<close>

lemma ctx_ok_sctx: "ctx_ok sctx"
  by (simp add: ctx_ok_def sctx_def)

lemma length_H0 [simp]: "length (H0 bits) = 8"
  by (simp add: H0_def SHA224_H0_def SHA256_H0_def)

lemma absorb_Nil [simp]: "absorb h [] = h"
  by (simp add: absorb_short)

lemma pending_Nil [simp]: "pending [] = []"
  by (simp add: pending_def)

lemma Hash_Init_absorbed:
  assumes "ctx_ok ctx0"
  shows "absorbed (H0 bits) [] (fst (Hash_Init bits ctx0))"
    and "digest_length (fst (Hash_Init bits ctx0)) = (if bits = 224 then 28 else 32)"
proof -
  from assms have lh: "length (hash ctx0) = 8" and lm: "length (message ctx0) = 16"
    by (simp_all add: ctx_ok_def)
  show "absorbed (H0 bits) [] (fst (Hash_Init bits ctx0))"
    using lm by (simp add: Hash_Init_def sha256_init_eq [OF lh] sha224_init_eq [OF lh]
        absorbed_def ctx_ok_def H0_def SHA224_H0_def SHA256_H0_def)
  show "digest_length (fst (Hash_Init bits ctx0)) = (if bits = 224 then 28 else 32)"
    by (simp add: Hash_Init_def sha256_init_eq [OF lh] sha224_init_eq [OF lh])
qed

lemma MAIN_BUFFER_SIZE_word:
  "n \<le> MAIN_BUFFER_SIZE \<Longrightarrow> unat (of_nat n :: uint32_t) = n"
  by (simp add: MAIN_BUFFER_SIZE_def unat_of_nat)

lemma update_absorbed:
  assumes "absorbed h0 m ctx" "length c \<le> MAIN_BUFFER_SIZE"
  shows "absorbed h0 (m @ c) (update c ctx)"
    and "digest_length (update c ctx) = digest_length ctx"
proof -
  have u: "unat (of_nat (length c) :: uint32_t) = length c"
    using assms(2) by (rule MAIN_BUFFER_SIZE_word)
  then have le: "unat (of_nat (length c) :: uint32_t) \<le> length c" by simp
  show "absorbed h0 (m @ c) (update c ctx)"
    using Hash_Update_absorbed(1) [OF assms(1) le] by (simp add: update_def u)
  show "digest_length (update c ctx) = digest_length ctx"
    using Hash_Update_absorbed(2) [OF assms(1) le] by (simp add: update_def)
qed

lemma fold_update_absorbed:
  assumes "absorbed h0 m ctx" "\<forall>c\<in>set cs. length c \<le> MAIN_BUFFER_SIZE"
  shows "absorbed h0 (m @ concat cs) (fold update cs ctx)
         \<and> digest_length (fold update cs ctx) = digest_length ctx"
  using assms
proof (induction cs arbitrary: m ctx)
  case Nil
  then show ?case by simp
next
  case (Cons c cs)
  then have c: "length c \<le> MAIN_BUFFER_SIZE" and cs: "\<forall>c\<in>set cs. length c \<le> MAIN_BUFFER_SIZE"
    by simp_all
  note U = update_absorbed [OF Cons.prems(1) c]
  from Cons.IH [OF U(1) cs] U(2) show ?case by simp
qed

lemma Hash_Final_absorbed:
  assumes "absorbed h0 m ctx" "unat (digest_length ctx) \<le> 32"
  shows "snd (Hash_Final ctx)
         = take (unat (digest_length ctx)) (bytes_of_words (map bswap_32 (absorb h0 (pad_message m))))"
proof -
  from assms have ok: "ctx_ok ctx" and lb: "length_bytes ctx = of_nat (length m)"
    and h: "hash ctx = absorb h0 m"
    and pd: "take (length m mod 64) (bytes_of_words (message ctx)) = pending m"
    unfolding absorbed_def by blast+
  have L: "unat (length_bytes ctx) mod 64 = length m mod 64"
    unfolding lb by (rule unat_of_nat_mod_64)
  let ?rest = "[0x80] @ replicate ((119 - length m mod 64) mod 64) 0 @ be64 (of_nat (length m) * 8)"
  have "padded (take (unat (length_bytes ctx) mod 64) (bytes_of_words (message ctx))) (length_bytes ctx)
        = pending m @ ?rest"
    unfolding L pd by (simp add: padded_def lb)
  moreover have "absorb (hash ctx) (pending m @ ?rest) = absorb h0 (pad_message m)"
    unfolding h pad_message_def by (rule absorb_append [symmetric])
  ultimately show ?thesis
    using Hash_Final_padded(3) [OF ok assms(2)] by simp
qed

lemma hash_chunks_digest:
  assumes "ctx_ok ctx0" "\<forall>c\<in>set cs. length c \<le> MAIN_BUFFER_SIZE"
  shows "hash_chunks bits ctx0 cs = sha2_digest bits (concat cs)"
proof -
  note I = Hash_Init_absorbed [OF assms(1), of bits]
  from fold_update_absorbed [OF I(1) assms(2)] I(2)
  have a: "absorbed (H0 bits) (concat cs) (fold update cs (fst (Hash_Init bits ctx0)))"
    and d: "digest_length (fold update cs (fst (Hash_Init bits ctx0))) = (if bits = 224 then 28 else 32)"
    by simp_all
  have b: "unat (digest_length (fold update cs (fst (Hash_Init bits ctx0)))) \<le> 32"
    unfolding d by simp
  show ?thesis
    unfolding hash_chunks_def sha2_digest_def Hash_Final_absorbed [OF a b] d by simp
qed

subsection \<open>Chunking\<close>

text \<open>Two runs over chunkings of the same message write the same digest.\<close>

lemma chunkings_agree:
  assumes "ctx_ok ctx0" "ctx_ok ctx1"
    and "\<forall>c\<in>set cs. length c \<le> MAIN_BUFFER_SIZE" "\<forall>c\<in>set cs'. length c \<le> MAIN_BUFFER_SIZE"
    and "concat cs = concat cs'"
  shows "hash_chunks bits ctx0 cs = hash_chunks bits ctx1 cs'"
  by (simp add: hash_chunks_digest assms)

text \<open>
  Claim C1. Splitting a message into chunks does not change the digest: for every list of
  chunks \<open>cs\<close> (empty chunks and the empty message included), \<^verbatim>\<open>Hash_Init\<close>, one
  \<^verbatim>\<open>Hash_Update\<close> for each chunk in order and \<^verbatim>\<open>Hash_Final\<close> give the digest of
  \<^verbatim>\<open>Hash_Init\<close>, a single \<^verbatim>\<open>Hash_Update\<close> with the whole message and \<^verbatim>\<open>Hash_Final\<close>. The
  whole message has to fit \<^verbatim>\<open>main_buffer\<close>, as a single call passes it there; what the
  static context held before either run does not matter.
\<close>

theorem chunking_invariance:
  assumes "ctx_ok ctx0" "ctx_ok ctx1" "length (concat cs) \<le> MAIN_BUFFER_SIZE"
  shows "hash_chunks bits ctx0 cs = hash_chunks bits ctx1 [concat cs]"
proof -
  have "length c \<le> MAIN_BUFFER_SIZE" if "c \<in> set cs" for c
  proof -
    from that obtain xs ys where "cs = xs @ c # ys" by (auto simp: in_set_conv_decomp)
    then have "length c \<le> length (concat cs)" by simp
    then show ?thesis using assms(3) by simp
  qed
  then have "hash_chunks bits ctx0 cs = sha2_digest bits (concat cs)"
    using assms(1) by (intro hash_chunks_digest) simp_all
  moreover have "hash_chunks bits ctx1 [concat cs] = sha2_digest bits (concat [concat cs])"
    using assms(2,3) by (intro hash_chunks_digest) simp_all
  ultimately show ?thesis by simp
qed

theorem chunking_invariance_witness:
  "ctx_ok sctx \<and> ctx_ok (fst (Hash_Init 224 sctx))
   \<and> length (concat [[0x61], [], [0x62, 0x63 :: uint8_t]]) \<le> MAIN_BUFFER_SIZE
   \<and> hash_chunks 256 sctx [[0x61], [], [0x62, 0x63]]
       = hash_chunks 256 (fst (Hash_Init 224 sctx)) [[0x61, 0x62, 0x63]]"
proof -
  have a: "ctx_ok sctx" by (rule ctx_ok_sctx)
  have b: "ctx_ok (fst (Hash_Init 224 sctx))"
    using Hash_Init_absorbed(1) [OF a, of 224] by (simp add: absorbed_def)
  have c: "length (concat [[0x61], [], [0x62, 0x63 :: uint8_t]]) \<le> MAIN_BUFFER_SIZE"
    by (simp add: MAIN_BUFFER_SIZE_def)
  show ?thesis
    using a b c chunking_invariance [OF a b c, of 256] by simp
qed

subsection \<open>The pending block\<close>

text \<open>
  Claim C7. After \<^verbatim>\<open>Hash_Init\<close> and any sequence of \<^verbatim>\<open>Hash_Update\<close> calls that together
  passed the bytes \<open>m\<close>: the length field counts \<open>m\<close> (modulo \<open>2^64\<close>); the index the code
  derives from it, \<^verbatim>\<open>(uint32_t)ctx->length & 63\<close>, is \<open>length m mod 64\<close>, below 64; the
  first that many bytes of \<^verbatim>\<open>ctx->message\<close> are the bytes of \<open>m\<close> after its last complete
  64-byte block; and \<^verbatim>\<open>ctx->hash\<close> is the initial state after one compression for each
  complete 64-byte block of \<open>m\<close>, in order, \<open>length m div 64\<close> compressions in all.
\<close>

theorem pending_block_invariant:
  assumes "ctx_ok ctx0" "\<forall>c\<in>set cs. length c \<le> MAIN_BUFFER_SIZE"
  shows "(let ctx = fold update cs (fst (Hash_Init bits ctx0)); m = concat cs in
          length_bytes ctx = of_nat (length m)
          \<and> unat ((ucast (length_bytes ctx) :: uint32_t) AND 63) = length m mod 64
          \<and> length m mod 64 < 64
          \<and> take (length m mod 64) (bytes_of_words (message ctx))
              = drop (length m - length m mod 64) m
          \<and> hash ctx = fold (\<lambda>block h. sha256_process_block h (words_of_bytes block))
                          (blocks64 m) (H0 bits)
          \<and> length (blocks64 m) = length m div 64
          \<and> ctx_ok ctx)"
proof -
  note I = Hash_Init_absorbed [OF assms(1), of bits]
  from fold_update_absorbed [OF I(1) assms(2)]
  have a: "absorbed (H0 bits) (concat cs) (fold update cs (fst (Hash_Init bits ctx0)))"
    by simp
  then show ?thesis
    unfolding Let_def absorbed_def
    by (simp add: unat_and_63 unat_of_nat_mod_64 length_blocks64 pending_def absorb_def)
qed

theorem pending_block_invariant_witness:
  "ctx_ok sctx
   \<and> length (replicate 60 (0x61 :: uint8_t)) \<le> MAIN_BUFFER_SIZE
   \<and> length (replicate 70 (0x62 :: uint8_t)) \<le> MAIN_BUFFER_SIZE
   \<and> (let ctx = fold update [replicate 60 0x61, replicate 70 0x62] (fst (Hash_Init 256 sctx)) in
        length_bytes ctx = 130
        \<and> unat ((ucast (length_bytes ctx) :: uint32_t) AND 63) = 2
        \<and> take 2 (bytes_of_words (message ctx)) = [0x62, 0x62]
        \<and> length (blocks64 (concat [replicate 60 0x61, replicate 70 (0x62 :: uint8_t)])) = 2)"
proof -
  have a: "ctx_ok sctx" by (rule ctx_ok_sctx)
  have b: "\<forall>c\<in>set [replicate 60 0x61, replicate 70 (0x62 :: uint8_t)]. length c \<le> MAIN_BUFFER_SIZE"
    by (simp add: MAIN_BUFFER_SIZE_def)
  have c: "drop 128 (replicate 60 0x61 @ replicate 70 (0x62 :: uint8_t)) = [0x62, 0x62]"
    by (simp add: numeral_eq_Suc)
  show ?thesis
    using a b pending_block_invariant [OF a b, of 256] c by (simp add: Let_def)
qed

subsection \<open>Padding\<close>

lemma blocks64_one: "length b = 64 \<Longrightarrow> blocks64 b = [b]"
  using blocks64_block [of b "[]"] by (simp add: blocks64_short)

lemma blocks64_two: "length b = 128 \<Longrightarrow> blocks64 b = [take 64 b, drop 64 b]"
proof -
  assume l: "length b = 128"
  have 1: "blocks64 (take 64 b @ drop 64 b) = take 64 b # blocks64 (drop 64 b)"
    by (rule blocks64_block) (simp add: l)
  have 2: "blocks64 (drop 64 b) = [drop 64 b]"
    by (rule blocks64_one) (simp add: l)
  show ?thesis using 1 2 by simp
qed

text \<open>
  Claim C4. With \<open>L\<close> the length modulo 64, \<^verbatim>\<open>Hash_Final\<close> keeps the first \<open>L\<close> bytes of the
  message buffer, appends the byte \<open>0x80\<close>, then the least number \<open>z\<close> of zero bytes that
  brings the length to 56 modulo 64, then the 64-bit length times 8 (the bit count, modulo
  \<open>2^64\<close>), most significant byte first. It runs the compression function once for each
  64-byte block of this padding, one block when \<open>L \<le> 55\<close> and two when \<open>L \<ge> 56\<close>; the
  bit count is the last 8 bytes of the last block, which stays in the message buffer. The
  digest length of the context is at most 32, as \<^verbatim>\<open>Hash_Init\<close> leaves it: then the output
  loop stays inside \<^verbatim>\<open>ctx->hash\<close> and writes the first \<^verbatim>\<open>digest_length\<close> bytes of the
  byte-swapped state.
\<close>

theorem Hash_Final_padding:
  assumes "ctx_ok ctx" "unat (digest_length ctx) \<le> 32"
  shows "(let L = unat (length_bytes ctx) mod 64;
              z = (119 - L) mod 64;
              pad = take L (bytes_of_words (message ctx)) @ [0x80] @ replicate z 0
                    @ be64 (length_bytes ctx * 8);
              h = fold (\<lambda>block h. sha256_process_block h (words_of_bytes block))
                    (blocks64 pad) (hash ctx)
          in z < 64 \<and> (L + 1 + z) mod 64 = 56
             \<and> blocks64 pad = (if L \<le> 55 then [pad] else [take 64 pad, drop 64 pad])
             \<and> length (blocks64 pad) = (if L \<le> 55 then 1 else 2)
             \<and> Hash_Final ctx =
                  (ctx\<lparr>message := words_of_bytes (last (blocks64 pad)), hash := map bswap_32 h\<rparr>,
                   take (unat (digest_length ctx)) (bytes_of_words (map bswap_32 h)))
             \<and> drop 56 (last (blocks64 pad)) = be64 (length_bytes ctx * 8))"
proof -
  define L where "L = unat (length_bytes ctx) mod 64"
  define z where "z = (119 - L) mod 64"
  define pad where "pad = take L (bytes_of_words (message ctx)) @ [0x80] @ replicate z 0
                    @ be64 (length_bytes ctx * 8)"
  define h where "h = fold (\<lambda>block h. sha256_process_block h (words_of_bytes block))
                    (blocks64 pad) (hash ctx)"
  from assms have lm: "length (message ctx) = 16" by (simp add: ctx_ok_def)
  have L: "L < 64" by (simp add: L_def)
  have lP: "length (take L (bytes_of_words (message ctx))) = L" using L lm by simp
  have pad: "pad = padded (take L (bytes_of_words (message ctx))) (length_bytes ctx)"
    unfolding pad_def padded_def lP z_def ..
  note F = Hash_Final_padded [OF assms(1), folded L_def, folded pad]
  have h: "h = absorb (hash ctx) pad" by (simp add: h_def absorb_def)
  have z: "z < 64" "(L + 1 + z) mod 64 = 56"
    using L by (simp_all add: z_def mod_if)
  have b: "blocks64 pad = (if L \<le> 55 then [pad] else [take 64 pad, drop 64 pad])"
    using F(2) by (simp add: blocks64_one blocks64_two)
  have lst: "last (blocks64 pad) = drop (length pad - 64) pad"
    using F(2) by (simp add: b)
  have "length pad - 64 + 56 = length pad - 8" using F(2) by (simp split: if_splits)
  moreover have "drop (length pad - 8) pad = be64 (length_bytes ctx * 8)"
    unfolding pad_def by simp
  ultimately have d: "drop 56 (last (blocks64 pad)) = be64 (length_bytes ctx * 8)"
    unfolding lst by (simp add: add.commute)
  have len: "length (blocks64 pad) = (if L \<le> 55 then 1 else 2)"
    by (simp add: b)
  have F1: "Hash_Final ctx =
             (ctx\<lparr>message := words_of_bytes (last (blocks64 pad)), hash := map bswap_32 h\<rparr>,
              take (unat (digest_length ctx)) (bytes_of_words (map bswap_32 h)))"
    using F(1) F(3) [OF assms(2)] unfolding lst h by (simp add: prod_eq_iff)
  have "z < 64 \<and> (L + 1 + z) mod 64 = 56
        \<and> blocks64 pad = (if L \<le> 55 then [pad] else [take 64 pad, drop 64 pad])
        \<and> length (blocks64 pad) = (if L \<le> 55 then 1 else 2)
        \<and> Hash_Final ctx =
             (ctx\<lparr>message := words_of_bytes (last (blocks64 pad)), hash := map bswap_32 h\<rparr>,
              take (unat (digest_length ctx)) (bytes_of_words (map bswap_32 h)))
        \<and> drop 56 (last (blocks64 pad)) = be64 (length_bytes ctx * 8)"
    using z b len F1 d by blast
  then show ?thesis
    unfolding Let_def L_def [symmetric] z_def [symmetric] pad_def [symmetric] h_def [symmetric] .
qed

subsection \<open>No error paths\<close>

lemma Hash_Update_rest_fields:
  "length_bytes (Hash_Update_rest msg sz ctx) = length_bytes ctx"
  "digest_length (Hash_Update_rest msg sz ctx) = digest_length ctx"
  by (simp_all add: Hash_Update_rest_def Let_def split: prod.split)

lemma Hash_Update_fields:
  "length_bytes (Hash_Update buf sz ctx) = length_bytes ctx + ucast sz"
  "digest_length (Hash_Update buf sz ctx) = digest_length ctx"
  by (simp_all add: Hash_Update_def Let_def Hash_Update_rest_fields)

lemma Hash_Final_fields:
  assumes "ctx_ok ctx"
  shows "length_bytes (fst (Hash_Final ctx)) = length_bytes ctx"
    and "digest_length (fst (Hash_Final ctx)) = digest_length ctx"
    and "ctx_ok (fst (Hash_Final ctx))"
    and "unat (digest_length ctx) \<le> 32 \<Longrightarrow>
         length (snd (Hash_Final ctx)) = unat (digest_length ctx)"
    and "drop 56 (bytes_of_words (message (fst (Hash_Final ctx)))) = be64 (length_bytes ctx * 8)"
proof -
  define L where "L = unat (length_bytes ctx) mod 64"
  define pad where "pad = padded (take L (bytes_of_words (message ctx))) (length_bytes ctx)"
  note F = Hash_Final_padded [OF assms, folded L_def, folded pad_def]
  from assms have lh: "length (hash ctx) = 8" by (simp add: ctx_ok_def)
  have l64: "length (drop (length pad - 64) pad) = 64" using F(2) by (simp split: if_splits)
  have la: "length (absorb (hash ctx) pad) = 8" using lh by (rule length_absorb)
  have lw: "length (words_of_bytes (drop (length pad - 64) pad)) = 16"
    by (simp only: length_words_of_bytes l64)
  show "length_bytes (fst (Hash_Final ctx)) = length_bytes ctx"
    and "digest_length (fst (Hash_Final ctx)) = digest_length ctx"
    by (simp_all add: F(1))
  show "ctx_ok (fst (Hash_Final ctx))"
    by (simp add: F(1) ctx_ok_def lw la del: length_words_of_bytes)
  show "length (snd (Hash_Final ctx)) = unat (digest_length ctx)"
    if "unat (digest_length ctx) \<le> 32"
    using that by (simp add: F(3) la)
  have "length pad - 64 + 56 = length pad - 8" using F(2) by (simp split: if_splits)
  moreover have "drop (length pad - 8) pad = be64 (length_bytes ctx * 8)"
    unfolding pad_def padded_def by simp
  moreover have "length (drop (length pad - 64) pad) mod 4 = 0" using l64 by simp
  ultimately show "drop 56 (bytes_of_words (message (fst (Hash_Final ctx)))) = be64 (length_bytes ctx * 8)"
    by (simp add: F(1) bytes_of_words_of_bytes add.commute)
qed

lemma Hash_Update_ok:
  assumes ok: "ctx_ok ctx" and sz: "unat sz \<le> length buf"
  shows "ctx_ok (Hash_Update buf sz ctx)"
proof -
  let ?index = "(ucast (length_bytes ctx) :: uint32_t) AND 63"
  let ?ctx1 = "ctx\<lparr>length_bytes := length_bytes ctx + ucast sz\<rparr>"
  let ?left = "sha256_block_size - ?index"
  from ok have lm: "length (message ctx) = 16" and lh: "length (hash ctx) = 8"
    by (simp_all add: ctx_ok_def)
  have rest: "ctx_ok (Hash_Update_rest msg s c)"
    if "length (message c) = 16" "length (hash c) = 8" "unat s \<le> length msg" for msg s c
    using Hash_Update_rest_props(1,2) [OF that(1,3)] that(2)
    by (simp add: ctx_ok_def length_absorb)
  show ?thesis
  proof (cases "?index = 0")
    case True
    then show ?thesis using rest [of ?ctx1 sz buf] lm lh sz
      by (simp add: Hash_Update_def Let_def)
  next
    case False
    show ?thesis
    proof (cases "sz < ?left")
      case True
      then show ?thesis using False lm lh
        by (simp add: Hash_Update_def Let_def ctx_ok_def)
    next
      case lt: False
      then have "unat ?left \<le> unat sz" by (simp add: word_less_nat_alt)
      then have "unat (sz - ?left) = unat sz - unat ?left"
        by (simp add: unat_sub word_le_nat_alt)
      then have "unat (sz - ?left) \<le> length (drop (unat ?left) buf)"
        using sz by simp
      then show ?thesis using False lt lm
        by (simp add: Hash_Update_def Let_def rest)
    qed
  qed
qed

text \<open>
  \<^verbatim>\<open>Hash_Update\<close> reads the length only for the index \<^verbatim>\<open>(uint32_t)ctx->length & 63\<close> and for
  the addition of its size, so it does the same to any context, whatever calls came
  before: with \<open>p\<close> the first \<open>length mod 64\<close> bytes of the message buffer and \<open>c\<close> the
  bytes passed in, it runs one compression for each complete block of \<open>p @ c\<close> and leaves
  the bytes after the last complete block at the start of the buffer.
\<close>

lemma Hash_Update_rest_length:
  "Hash_Update_rest msg sz (ctx\<lparr>length_bytes := l\<rparr>)
   = (Hash_Update_rest msg sz ctx)\<lparr>length_bytes := l\<rparr>"
  by (simp add: Hash_Update_rest_def Let_def split: prod.split)

lemma Hash_Update_length:
  assumes "(ucast l :: uint32_t) AND 63 = (ucast (length_bytes ctx) :: uint32_t) AND 63"
  shows "Hash_Update buf sz (ctx\<lparr>length_bytes := l\<rparr>)
         = (Hash_Update buf sz ctx)\<lparr>length_bytes := l + ucast sz\<rparr>"
proof -
  have rest: "Hash_Update_rest msg s (ctx\<lparr>length_bytes := k, message := m, hash := h\<rparr>)
              = (Hash_Update_rest msg s (ctx\<lparr>message := m, hash := h\<rparr>))\<lparr>length_bytes := k\<rparr>"
    for msg s k m h
    by (cases ctx) (simp add: Hash_Update_rest_def Let_def split: prod.split)
  show ?thesis
    using assms by (simp add: Hash_Update_def Let_def Hash_Update_rest_length rest)
qed

lemma Hash_Update_any:
  assumes ok: "ctx_ok ctx" and sz: "unat sz \<le> length buf"
  defines "L \<equiv> unat (length_bytes ctx) mod 64"
  defines "p \<equiv> take L (bytes_of_words (message ctx))"
  shows "hash (Hash_Update buf sz ctx) = absorb (hash ctx) (p @ take (unat sz) buf)"
    and "take ((L + unat sz) mod 64) (bytes_of_words (message (Hash_Update buf sz ctx)))
         = pending (p @ take (unat sz) buf)"
proof -
  let ?ctx0 = "ctx\<lparr>length_bytes := of_nat L\<rparr>"
  from ok have lm: "length (message ctx) = 16" by (simp add: ctx_ok_def)
  have L: "L < 64" by (simp add: L_def)
  have lp: "length p = L" using L lm by (simp add: p_def)
  have "unat ((ucast (of_nat L :: uint64_t) :: uint32_t) AND 63)
        = unat ((ucast (length_bytes ctx) :: uint32_t) AND 63)"
    by (simp only: unat_and_63 unat_of_nat_mod_64) (simp add: L_def)
  then have ix: "(ucast (of_nat L :: uint64_t) :: uint32_t) AND 63
                 = (ucast (length_bytes ctx) :: uint32_t) AND 63"
    by (rule word_unat_eq_iff [THEN iffD2])
  have inv: "absorbed (hash ctx) p ?ctx0"
    using ok L lp by (simp add: absorbed_def ctx_ok_def absorb_short pending_short p_def)
  note A = Hash_Update_absorbed(1) [OF inv sz]
  have eq: "Hash_Update buf sz ?ctx0
            = (Hash_Update buf sz ctx)\<lparr>length_bytes := of_nat L + ucast sz\<rparr>"
    using ix by (rule Hash_Update_length)
  have ln: "length (p @ take (unat sz) buf) mod 64 = (L + unat sz) mod 64"
    using sz lp by simp
  from A show "hash (Hash_Update buf sz ctx) = absorb (hash ctx) (p @ take (unat sz) buf)"
    unfolding absorbed_def eq by simp
  from A show "take ((L + unat sz) mod 64) (bytes_of_words (message (Hash_Update buf sz ctx)))
               = pending (p @ take (unat sz) buf)"
    unfolding absorbed_def eq ln by simp
qed

theorem Hash_Final_padding_witness:
  "ctx_ok (update (replicate 60 0x61) (fst (Hash_Init 256 sctx))) \<and> unat (digest_length (update (replicate 60 0x61) (fst (Hash_Init 256 sctx)))) \<le> 32 \<and>
   (let L = unat (length_bytes (update (replicate 60 0x61) (fst (Hash_Init 256 sctx)))) mod 64;
        z = (119 - L) mod 64;
        pad = take L (bytes_of_words (message (update (replicate 60 0x61) (fst (Hash_Init 256 sctx))))) @ [0x80] @ replicate z 0
              @ be64 (length_bytes (update (replicate 60 0x61) (fst (Hash_Init 256 sctx))) * 8);
        h = fold (\<lambda>block h. sha256_process_block h (words_of_bytes block))
              (blocks64 pad) (hash (update (replicate 60 0x61) (fst (Hash_Init 256 sctx))))
    in z < 64 \<and> (L + 1 + z) mod 64 = 56
       \<and> blocks64 pad = (if L \<le> 55 then [pad] else [take 64 pad, drop 64 pad])
       \<and> length (blocks64 pad) = (if L \<le> 55 then 1 else 2)
       \<and> Hash_Final (update (replicate 60 0x61) (fst (Hash_Init 256 sctx))) =
            ((update (replicate 60 0x61) (fst (Hash_Init 256 sctx)))\<lparr>message := words_of_bytes (last (blocks64 pad)), hash := map bswap_32 h\<rparr>,
             take (unat (digest_length (update (replicate 60 0x61) (fst (Hash_Init 256 sctx))))) (bytes_of_words (map bswap_32 h)))
       \<and> drop 56 (last (blocks64 pad)) = be64 (length_bytes (update (replicate 60 0x61) (fst (Hash_Init 256 sctx))) * 8))
   \<and> unat (length_bytes (update (replicate 60 0x61) (fst (Hash_Init 256 sctx)))) mod 64 = 60 \<and> digest_length (update (replicate 60 0x61) (fst (Hash_Init 256 sctx))) = 32"
proof -
  have i: "absorbed (H0 256) [] (fst (Hash_Init 256 sctx))"
    and d: "digest_length (fst (Hash_Init 256 sctx)) = 32"
    using Hash_Init_absorbed [OF ctx_ok_sctx, of 256] by simp_all
  have l: "length (replicate 60 (0x61 :: uint8_t)) \<le> MAIN_BUFFER_SIZE"
    by (simp add: MAIN_BUFFER_SIZE_def)
  note U = update_absorbed [OF i l]
  have a: "ctx_ok (update (replicate 60 0x61) (fst (Hash_Init 256 sctx)))"
    using U(1) by (simp add: absorbed_def)
  have d': "digest_length (update (replicate 60 0x61) (fst (Hash_Init 256 sctx))) = 32"
    using U(2) d by simp
  have b: "unat (digest_length (update (replicate 60 0x61) (fst (Hash_Init 256 sctx)))) \<le> 32"
    unfolding d' by simp
  have n: "unat (length_bytes (update (replicate 60 0x61) (fst (Hash_Init 256 sctx)))) mod 64 = 60"
    using U(1) by (simp add: absorbed_def)
  show ?thesis
    using a b Hash_Final_padding [OF a b] n d' by (intro conjI)
qed

text \<open>
  Claim C8, as amended. The source keeps no record of finalisation and has no error
  result. \<^verbatim>\<open>Hash_Final\<close> leaves the length and the digest length as they are, and a
  \<^verbatim>\<open>Hash_Update\<close> that follows it without \<^verbatim>\<open>Hash_Init\<close> does what it does to any context:
  it adds its size to the length and absorbs the bytes. With \<open>L\<close> the length modulo 64,
  \<open>p\<close> the first \<open>L\<close> bytes of the message buffer as \<^verbatim>\<open>Hash_Final\<close> left it and \<open>c\<close> the
  bytes passed in, it runs one compression for each complete 64-byte block of \<open>p @ c\<close>,
  starting from the byte-swapped state that \<^verbatim>\<open>Hash_Final\<close> left in \<^verbatim>\<open>ctx->hash\<close>, and leaves
  the bytes after the last complete block at the start of the buffer. A second
  \<^verbatim>\<open>Hash_Final\<close> proceeds too: it pads \<open>p\<close> with the unchanged length, compresses from the
  same state and writes \<^verbatim>\<open>digest_length\<close> bytes. The digest length is at most 32, as
  \<^verbatim>\<open>Hash_Init\<close> leaves it.
\<close>

theorem no_lifecycle_check:
  assumes "ctx_ok ctx" "unat (digest_length ctx) \<le> 32" "unat sz \<le> length buf"
  shows "(let fin = fst (Hash_Final ctx);
              L = unat (length_bytes ctx) mod 64;
              p = take L (bytes_of_words (message fin));
              c = take (unat sz) buf;
              upd = Hash_Update buf sz fin;
              pad = p @ [0x80] @ replicate ((119 - L) mod 64) 0 @ be64 (length_bytes ctx * 8)
          in length_bytes fin = length_bytes ctx \<and> digest_length fin = digest_length ctx
             \<and> ctx_ok fin
             \<and> length_bytes upd = length_bytes ctx + ucast sz
             \<and> digest_length upd = digest_length ctx
             \<and> ctx_ok upd
             \<and> hash upd = fold (\<lambda>block h. sha256_process_block h (words_of_bytes block))
                            (blocks64 (p @ c)) (hash fin)
             \<and> take ((L + unat sz) mod 64) (bytes_of_words (message upd))
                 = drop (length (p @ c) - length (p @ c) mod 64) (p @ c)
             \<and> snd (Hash_Final fin)
                 = take (unat (digest_length ctx))
                     (bytes_of_words (map bswap_32
                        (fold (\<lambda>block h. sha256_process_block h (words_of_bytes block))
                           (blocks64 pad) (hash fin))))
             \<and> length (snd (Hash_Final fin)) = unat (digest_length ctx))"
proof -
  define fin where "fin = fst (Hash_Final ctx)"
  define L where "L = unat (length_bytes ctx) mod 64"
  define p where "p = take L (bytes_of_words (message fin))"
  note F = Hash_Final_fields [OF assms(1), folded fin_def]
  have LF: "unat (length_bytes fin) mod 64 = L" by (simp add: F(1) L_def)
  have dF: "unat (digest_length fin) \<le> 32" using assms(2) by (simp add: F(2))
  have lm: "length (message fin) = 16" using F(3) by (simp add: ctx_ok_def)
  have lp: "length p = L" using lm by (simp add: p_def L_def)
  note U = Hash_Update_any [OF F(3) assms(3), unfolded LF, folded p_def]
  note P = Hash_Final_padded [OF F(3), unfolded LF, folded p_def]
  have 1: "length_bytes (Hash_Update buf sz fin) = length_bytes ctx + ucast sz"
    and 2: "digest_length (Hash_Update buf sz fin) = digest_length ctx"
    by (simp_all add: Hash_Update_fields F(1,2))
  have 3: "ctx_ok (Hash_Update buf sz fin)"
    using F(3) assms(3) by (rule Hash_Update_ok)
  have 4: "hash (Hash_Update buf sz fin)
           = fold (\<lambda>block h. sha256_process_block h (words_of_bytes block))
               (blocks64 (p @ take (unat sz) buf)) (hash fin)"
    using U(1) by (simp only: absorb_def)
  have 5: "take ((L + unat sz) mod 64) (bytes_of_words (message (Hash_Update buf sz fin)))
           = drop (length (p @ take (unat sz) buf) - length (p @ take (unat sz) buf) mod 64)
               (p @ take (unat sz) buf)"
    using U(2) by (simp only: pending_def)
  have 6: "snd (Hash_Final fin)
           = take (unat (digest_length ctx))
               (bytes_of_words (map bswap_32
                  (fold (\<lambda>block h. sha256_process_block h (words_of_bytes block))
                     (blocks64 (p @ [0x80] @ replicate ((119 - L) mod 64) 0
                                @ be64 (length_bytes ctx * 8))) (hash fin))))"
    using P(3) [OF dF] by (simp only: absorb_def padded_def lp F(1) F(2))
  have 7: "length (snd (Hash_Final fin)) = unat (digest_length ctx)"
    using Hash_Final_fields(4) [OF F(3) dF] by (simp only: F(2))
  show ?thesis
    unfolding Let_def fin_def [symmetric] L_def [symmetric] p_def [symmetric]
    using F(1) F(2) F(3) 1 2 3 4 5 6 7 by (intro conjI)
qed

theorem no_lifecycle_check_witness:
  "ctx_ok (update [0x61, 0x62, 0x63] (fst (Hash_Init 224 sctx))) \<and> unat (digest_length (update [0x61, 0x62, 0x63] (fst (Hash_Init 224 sctx)))) \<le> 32
   \<and> unat (70 :: uint32_t) \<le> length (replicate 70 (0x62 :: uint8_t))
   \<and> (let fin = fst (Hash_Final (update [0x61, 0x62, 0x63] (fst (Hash_Init 224 sctx))));
           upd = Hash_Update (replicate 70 0x62) 70 fin
       in length_bytes fin = 3 \<and> digest_length fin = 28
          \<and> length_bytes upd = 73 \<and> digest_length upd = 28
          \<and> hash upd = sha256_process_block (hash fin)
                         (words_of_bytes (take 3 (bytes_of_words (message fin))
                                          @ replicate 61 0x62))
          \<and> take 9 (bytes_of_words (message upd)) = replicate 9 0x62
          \<and> length (snd (Hash_Final fin)) = 28)"
proof -
  define fin where "fin = fst (Hash_Final (update [0x61, 0x62, 0x63] (fst (Hash_Init 224 sctx))))"
  define p where "p = take 3 (bytes_of_words (message fin))"
  have i: "absorbed (H0 224) [] (fst (Hash_Init 224 sctx))"
    and d: "digest_length (fst (Hash_Init 224 sctx)) = 28"
    using Hash_Init_absorbed [OF ctx_ok_sctx, of 224] by simp_all
  have l: "length [0x61, 0x62, 0x63 :: uint8_t] \<le> MAIN_BUFFER_SIZE"
    by (simp add: MAIN_BUFFER_SIZE_def)
  note U = update_absorbed [OF i l]
  have a: "ctx_ok (update [0x61, 0x62, 0x63] (fst (Hash_Init 224 sctx)))"
    using U(1) by (simp add: absorbed_def)
  have d': "digest_length (update [0x61, 0x62, 0x63] (fst (Hash_Init 224 sctx))) = 28"
    using U(2) d by simp
  have b: "unat (digest_length (update [0x61, 0x62, 0x63] (fst (Hash_Init 224 sctx)))) \<le> 32"
    unfolding d' by simp
  have n: "length_bytes (update [0x61, 0x62, 0x63] (fst (Hash_Init 224 sctx))) = 3"
    using U(1) by (simp add: absorbed_def)
  have c: "unat (70 :: uint32_t) \<le> length (replicate 70 (0x62 :: uint8_t))" by simp
  have ok: "ctx_ok fin"
    unfolding fin_def using a by (rule Hash_Final_fields(3))
  then have lp: "length p = 3" by (simp add: p_def ctx_ok_def)
  have s: "p @ replicate 70 (0x62 :: uint8_t) = (p @ replicate 61 0x62) @ replicate 9 0x62"
    by (simp flip: replicate_add)
  have b1: "blocks64 (p @ replicate 70 (0x62 :: uint8_t)) = [p @ replicate 61 0x62]"
  proof -
    have "length (p @ replicate 61 (0x62 :: uint8_t)) = 64" using lp by simp
    then have "blocks64 ((p @ replicate 61 0x62) @ replicate 9 0x62)
               = (p @ replicate 61 0x62) # blocks64 (replicate 9 0x62)"
      by (rule blocks64_block)
    moreover have "blocks64 (replicate 9 (0x62 :: uint8_t)) = []"
      by (rule blocks64_short) simp
    ultimately show ?thesis unfolding s by (simp only:)
  qed
  have t: "drop 64 (p @ replicate 70 (0x62 :: uint8_t)) = replicate 9 0x62"
    using lp by simp
  have lh: "length (hash fin) = 8" using ok by (simp add: ctx_ok_def)
  show ?thesis
    using a b c no_lifecycle_check [OF a b c]
    unfolding Let_def fin_def [symmetric] p_def [symmetric]
    by (simp add: n d' p_def [symmetric] b1 lp t length_absorb [unfolded absorb_def] lh)
qed

text \<open>
  The claim as the specification states it fails: after \<^verbatim>\<open>Hash_Init(256)\<close> and
  \<^verbatim>\<open>Hash_Final\<close>, a call \<^verbatim>\<open>Hash_Update(1)\<close> on the byte \<open>0x61\<close> is not rejected. It counts the
  byte and stores it in the message buffer, and a second \<^verbatim>\<open>Hash_Final\<close> writes 32 bytes.
\<close>

theorem update_after_final_counterexample:
  "length_bytes (fst (Hash_Final (fst (Hash_Init 256 sctx)))) = 0
   \<and> length_bytes (Hash_Update [0x61] 1 (fst (Hash_Final (fst (Hash_Init 256 sctx))))) = 1
   \<and> take 1 (bytes_of_words (message
         (Hash_Update [0x61] 1 (fst (Hash_Final (fst (Hash_Init 256 sctx))))))) = [0x61]
   \<and> length (snd (Hash_Final
         (Hash_Update [0x61] 1 (fst (Hash_Final (fst (Hash_Init 256 sctx))))))) = 32"
proof -
  define c0 where "c0 = fst (Hash_Init 256 sctx)"
  define c1 where "c1 = fst (Hash_Final c0)"
  define c2 where "c2 = Hash_Update [0x61] 1 c1"
  have i: "absorbed (H0 256) [] c0" and d0: "digest_length c0 = 32"
    unfolding c0_def using Hash_Init_absorbed [OF ctx_ok_sctx, of 256] by simp_all
  then have ok0: "ctx_ok c0" and l0: "length_bytes c0 = 0" by (simp_all add: absorbed_def)
  note F = Hash_Final_fields [OF ok0, folded c1_def]
  have l1: "length_bytes c1 = 0" and d1: "digest_length c1 = 32"
    using F(1,2) l0 d0 by simp_all
  have sz: "unat (1 :: uint32_t) \<le> length [0x61 :: uint8_t]" by simp
  have ok2: "ctx_ok c2" unfolding c2_def using F(3) sz by (rule Hash_Update_ok)
  have l2: "length_bytes c2 = 1" and d2: "digest_length c2 = 32"
    unfolding c2_def by (simp_all add: Hash_Update_fields l1 d1)
  have lm1: "length (message c1) = 16" using F(3) by (simp add: ctx_ok_def)
  have "c2 = Hash_Update_rest [0x61] 1 (c1\<lparr>length_bytes := length_bytes c1 + ucast (1 :: uint32_t)\<rparr>)"
    unfolding c2_def by (simp add: Hash_Update_def Let_def l1)
  moreover have "length (message (c1\<lparr>length_bytes := length_bytes c1 + ucast (1 :: uint32_t)\<rparr>)) = 16"
    using lm1 by simp
  ultimately have m2: "take 1 (bytes_of_words (message c2)) = [0x61]"
    using Hash_Update_rest_props(3) [of "c1\<lparr>length_bytes := length_bytes c1 + ucast (1 :: uint32_t)\<rparr>" 1 "[0x61]"]
    by (simp add: pending_def)
  have "length (snd (Hash_Final c2)) = 32"
    using Hash_Final_fields(4) [OF ok2] by (simp add: d2)
  then show ?thesis
    using l1 l2 m2 unfolding c2_def c1_def c0_def by simp
qed

text \<open>
  Claim C9, as amended. The length is a 64-bit byte count that wraps: \<^verbatim>\<open>Hash_Update\<close> adds
  its size modulo \<open>2^64\<close> and reports nothing, and \<^verbatim>\<open>Hash_Final\<close> writes the low 64 bits
  of eight times the length into the last 8 bytes of the final block, so the three top bits
  of the length are dropped.
\<close>

theorem length_counter_wraps:
  "unat (length_bytes (Hash_Update buf sz ctx)) = (unat (length_bytes ctx) + unat sz) mod 2 ^ 64
   \<and> (ctx_ok ctx \<longrightarrow>
        drop 56 (bytes_of_words (message (fst (Hash_Final ctx)))) = be64 (length_bytes ctx * 8)
        \<and> unat (length_bytes ctx * 8) = (unat (length_bytes ctx) * 8) mod 2 ^ 64)"
proof -
  have "unat sz < 2 ^ 32" using unsigned_less [of sz, where 'a = nat] by simp
  then have "unat sz < 2 ^ 64" by (rule less_trans) simp
  then have "unat (ucast sz :: uint64_t) = unat sz"
    by (simp add: unsigned_ucast_eq take_bit_eq_mod)
  then have "unat (length_bytes ctx + ucast sz) = (unat (length_bytes ctx) + unat sz) mod 2 ^ 64"
    by (simp add: unat_word_ariths)
  moreover have "unat (length_bytes ctx * 8) = (unat (length_bytes ctx) * 8) mod 2 ^ 64"
    by (simp add: unat_word_ariths)
  ultimately show ?thesis
    by (simp add: Hash_Update_fields Hash_Final_fields(5))
qed

theorem length_counter_wraps_witness:
  "unat (length_bytes (Hash_Update [0x61] 1 (sctx\<lparr>length_bytes := 5\<rparr>))) = 6
   \<and> ctx_ok (sctx\<lparr>length_bytes := 2 ^ 61\<rparr>)
   \<and> drop 56 (bytes_of_words (message (fst (Hash_Final (sctx\<lparr>length_bytes := 2 ^ 61\<rparr>)))))
       = be64 0"
proof -
  have a: "ctx_ok (sctx\<lparr>length_bytes := 2 ^ 61\<rparr>)" by (simp add: ctx_ok_def sctx_def)
  have n0: "(18446744073709551616 :: uint64_t) = 0" by simp
  show ?thesis
    using a length_counter_wraps [of "[0x61]" 1 "sctx\<lparr>length_bytes := 5\<rparr>"]
      length_counter_wraps [of "[]" 0 "sctx\<lparr>length_bytes := 2 ^ 61\<rparr>"]
    by (simp add: n0)
qed

text \<open>
  The claim as the specification states it fails: from a length of \<open>2^61 - 1\<close> bytes, one
  more byte is accepted and brings the length to \<open>2^61\<close>; at that length \<^verbatim>\<open>Hash_Final\<close>
  writes a bit count of zero; and from \<open>2^64 - 1\<close> the length itself wraps to zero. No
  call reports an error.
\<close>

theorem input_too_large_counterexample:
  "length_bytes (Hash_Update [0x61] 1 (sctx\<lparr>length_bytes := 2 ^ 61 - 1\<rparr>)) = 2 ^ 61
   \<and> drop 56 (bytes_of_words (message (fst (Hash_Final
         (Hash_Update [0x61] 1 (sctx\<lparr>length_bytes := 2 ^ 61 - 1\<rparr>))))))
       = [0, 0, 0, 0, 0, 0, 0, 0]
   \<and> length_bytes (Hash_Update [0x61] 1 (sctx\<lparr>length_bytes := 2 ^ 64 - 1\<rparr>)) = 0"
proof -
  define c where "c = Hash_Update [0x61] 1 (sctx\<lparr>length_bytes := 2 ^ 61 - 1\<rparr>)"
  have ok: "ctx_ok (sctx\<lparr>length_bytes := 2 ^ 61 - 1\<rparr>)" by (simp add: ctx_ok_def sctx_def)
  have sz: "unat (1 :: uint32_t) \<le> length [0x61 :: uint8_t]" by simp
  have okc: "ctx_ok c" unfolding c_def using ok sz by (rule Hash_Update_ok)
  have lc: "length_bytes c = 2 ^ 61" unfolding c_def by (simp add: Hash_Update_fields)
  have "be64 ((2 ^ 61 :: uint64_t) * 8) = [0, 0, 0, 0, 0, 0, 0, 0]"
    by (simp add: be64_def upt_8)
  then have "drop 56 (bytes_of_words (message (fst (Hash_Final c)))) = [0, 0, 0, 0, 0, 0, 0, 0]"
    using Hash_Final_fields(5) [OF okc] by (simp add: lc)
  moreover have "length_bytes (Hash_Update [0x61] 1 (sctx\<lparr>length_bytes := 2 ^ 64 - 1\<rparr>)) = 0"
    by (simp add: Hash_Update_fields)
  ultimately show ?thesis using lc unfolding c_def by simp
qed

subsection \<open>Known answers\<close>

text \<open>
  Evaluating the compression function in the kernel. The rules below are the definitions
  with every sum and left shift cut to 32 bits, which is the identity on \<^typ>\<open>uint32_t\<close>
  and keeps the numerals of the evaluation small.
\<close>

lemma list_update_numeral_Cons: "(x # xs)[numeral n := v] = x # xs[pred_numeral n := v]"
  by (simp add: numeral_eq_Suc)

lemma drop_numeral_Cons: "drop (numeral n) (x # xs) = drop (pred_numeral n) xs"
  by (simp add: numeral_eq_Suc)

lemma replicate_numeral_Cons: "replicate (numeral n) x = x # replicate (pred_numeral n) x"
  by (simp add: numeral_eq_Suc)

lemma take_bit_32: "take_bit 32 (x :: uint32_t) = x"
  by (rule take_bit_word_eq_self) simp

lemma ROTR32_ev: "ROTR32 x n = drop_bit n x XOR take_bit 32 (push_bit (32 - n) x)"
  by (simp add: ROTR32_def take_bit_32)

lemma bswap_32_ev: "bswap_32 x = take_bit 32 (push_bit 24 x) OR take_bit 32 (push_bit 8 (x AND 0xFF00))
                OR (drop_bit 8 x AND 0xFF00) OR drop_bit 24 x"
  by (simp add: bswap_32_def take_bit_32)

lemma ROUND_ev: "ROUND a b c d e f g h k data v =
     (let T1 = take_bit 32 (v h + Sigma1 (v e) + Ch (v e) (v f) (v g) + k + data);
          v = v(d := take_bit 32 (v d + T1));
          v = v(h := take_bit 32 (T1 + Sigma0 (v a) + Maj (v a) (v b) (v c)))
      in v)"
  by (simp add: ROUND_def take_bit_32)

lemma RECALCULATE_W_ev: "RECALCULATE_W w n =
     w[nat n := take_bit 32 (w ! nat n +
        (sigma1 (w ! nat ((n - 2) AND 15)) + w ! nat ((n - 7) AND 15)
         + sigma0 (w ! nat ((n - 15) AND 15))))]"
  by (simp add: RECALCULATE_W_def take_bit_32)

lemma sha256_process_block_ev:
  "sha256_process_block [h0, h1, h2, h3, h4, h5, h6, h7] block =
     map2 (\<lambda>x y. take_bit 32 (x + y)) [h0, h1, h2, h3, h4, h5, h6, h7]
       (map (vars (rounds_17_64 (drop 48 rhash_k256)
          (rounds_17_64 (drop 32 rhash_k256) (rounds_17_64 (drop 16 rhash_k256)
            (rounds_1_16 block
              \<lparr>vars = (\<lambda>_. 0)(A := h0, B := h1, C := h2, D := h3, E := h4, F := h5, G := h6, H := h7),
               W = replicate 16 0\<rparr>)))))
         [A, B, C, D, E, F, G, H])"
  by (simp add: sha256_process_block_def sha256_process_block_from_def Let_def rounds_loop_unfold take_bit_32)

lemmas ev = list_update_numeral_Cons drop_numeral_Cons rounds_1_16_def rounds_17_64_def run_def ROUND_1_16_def ROUND_17_64_def ROUND_ev
   RECALCULATE_W_ev Sigma0_def Sigma1_def sigma0_def sigma1_def Ch_def Maj_def ROTR32_ev bswap_32_ev rhash_k256_def
   Let_def sha256_process_block_ev

lemma compress_abc_256:
  "sha256_process_block
     [0x6a09e667, 0xbb67ae85, 0x3c6ef372, 0xa54ff53a,
      0x510e527f, 0x9b05688c, 0x1f83d9ab, 0x5be0cd19]
     [0x80636261, 0, 0, 0, 0, 0, 0, 0, 0, 0, 0, 0, 0, 0, 0, 0x18000000]
   = [0xba7816bf, 0x8f01cfea, 0x414140de, 0x5dae2223, 0xb00361a3, 0x96177a9c, 0xb410ff61, 0xf20015ad]"
  by (simp add: ev)

lemma compress_empty_256:
  "sha256_process_block
     [0x6a09e667, 0xbb67ae85, 0x3c6ef372, 0xa54ff53a,
      0x510e527f, 0x9b05688c, 0x1f83d9ab, 0x5be0cd19]
     [0x00000080, 0, 0, 0, 0, 0, 0, 0, 0, 0, 0, 0, 0, 0, 0, 0]
   = [0xe3b0c442, 0x98fc1c14, 0x9afbf4c8, 0x996fb924, 0x27ae41e4, 0x649b934c, 0xa495991b, 0x7852b855]"
  by (simp add: ev)

lemma compress_abc_224:
  "sha256_process_block
     [0xc1059ed8, 0x367cd507, 0x3070dd17, 0xf70e5939, 0xffc00b31, 0x68581511, 0x64f98fa7, 0xbefa4fa4]
     [0x80636261, 0, 0, 0, 0, 0, 0, 0, 0, 0, 0, 0, 0, 0, 0, 0x18000000]
   = [0x23097d22, 0x3405d822, 0x8642a477, 0xbda255b3, 0x2aadbce4, 0xbda0b3f7, 0xe36c9da7, 0xd2da082d]"
  by (simp add: ev)

lemma ascii_abc: "ascii ''abc'' = [0x61, 0x62, 0x63]"
  by (simp add: ascii_def)

lemma pad_message_abc:
  "pad_message [0x61, 0x62, 0x63] = [0x61, 0x62, 0x63, 0x80] @ replicate 52 0 @ [0, 0, 0, 0, 0, 0, 0, 0x18]"
  by (simp add: pad_message_def be64_def upt_8)

lemma pad_message_empty:
  "pad_message [] = [0x80] @ replicate 55 0 @ [0, 0, 0, 0, 0, 0, 0, 0]"
  by (simp add: pad_message_def be64_def upt_8)

lemma words_abc:
  "words_of_bytes ([0x61, 0x62, 0x63, 0x80] @ replicate 52 0 @ [0, 0, 0, 0, 0, 0, 0, 0x18])
   = [0x80636261, 0, 0, 0, 0, 0, 0, 0, 0, 0, 0, 0, 0, 0, 0, 0x18000000]"
  by (simp add: le_word_def replicate_numeral_Cons)

lemma words_empty:
  "words_of_bytes ([0x80] @ replicate 55 0 @ [0, 0, 0, 0, 0, 0, 0, 0])
   = [0x00000080, 0, 0, 0, 0, 0, 0, 0, 0, 0, 0, 0, 0, 0, 0, 0]"
  by (simp add: le_word_def replicate_numeral_Cons)

lemmas out_ev = bytes_of_words_def le_bytes_def byte_of_def bswap_32_ev

lemma digest_abc_256:
  "hex (sha2_digest 256 [0x61, 0x62, 0x63])
   = ''ba7816bf8f01cfea414140de5dae2223b00361a396177a9cb410ff61f20015ad''"
proof -
  have "absorb SHA256_H0 (pad_message [0x61, 0x62, 0x63])
        = [0xba7816bf, 0x8f01cfea, 0x414140de, 0x5dae2223, 0xb00361a3, 0x96177a9c, 0xb410ff61, 0xf20015ad]"
    unfolding pad_message_abc
    by (subst absorb_one_block) (simp_all only: words_abc SHA256_H0_def compress_abc_256, simp)
  then show ?thesis
    by (simp add: sha2_digest_def H0_def out_ev hex_def hex_digit_def)
qed

lemma digest_empty_256:
  "hex (sha2_digest 256 [])
   = ''e3b0c44298fc1c149afbf4c8996fb92427ae41e4649b934ca495991b7852b855''"
proof -
  have "absorb SHA256_H0 (pad_message [])
        = [0xe3b0c442, 0x98fc1c14, 0x9afbf4c8, 0x996fb924, 0x27ae41e4, 0x649b934c, 0xa495991b, 0x7852b855]"
    unfolding pad_message_empty
    by (subst absorb_one_block) (simp_all only: words_empty SHA256_H0_def compress_empty_256, simp)
  then show ?thesis
    by (simp add: sha2_digest_def H0_def out_ev hex_def hex_digit_def)
qed

lemma digest_abc_224:
  "hex (sha2_digest 224 [0x61, 0x62, 0x63])
   = ''23097d223405d8228642a477bda255b32aadbce4bda0b3f7e36c9da7''"
proof -
  have "absorb SHA224_H0 (pad_message [0x61, 0x62, 0x63])
        = [0x23097d22, 0x3405d822, 0x8642a477, 0xbda255b3, 0x2aadbce4, 0xbda0b3f7, 0xe36c9da7, 0xd2da082d]"
    unfolding pad_message_abc
    by (subst absorb_one_block) (simp_all only: words_abc SHA224_H0_def compress_abc_224, simp)
  then show ?thesis
    by (simp add: sha2_digest_def H0_def out_ev hex_def hex_digit_def)
qed

lemma hash_abc:
  assumes "ctx_ok ctx0"
  shows "hash_chunks bits ctx0 [ascii ''abc''] = sha2_digest bits [0x61, 0x62, 0x63]"
proof -
  have "hash_chunks bits ctx0 [ascii ''abc''] = sha2_digest bits (concat [ascii ''abc''])"
    using assms by (intro hash_chunks_digest) (simp_all add: ascii_abc MAIN_BUFFER_SIZE_def)
  then show ?thesis by (simp add: ascii_abc)
qed

lemma hash_empty:
  assumes "ctx_ok ctx0" "\<forall>c\<in>set cs. c = []"
  shows "hash_chunks bits ctx0 cs = sha2_digest bits []"
proof -
  have c: "concat cs = []" using assms(2) by simp
  have b: "\<forall>c\<in>set cs. length c \<le> MAIN_BUFFER_SIZE" using assms(2) by auto
  show ?thesis
    unfolding hash_chunks_digest [OF assms(1) b] c ..
qed

text \<open>
  Claim C2. After \<^verbatim>\<open>Hash_Init(256)\<close>, \<^verbatim>\<open>Hash_Update\<close> on the three bytes of \<open>abc\<close> and
  \<^verbatim>\<open>Hash_Final\<close>, the 32 bytes written to the buffer read, in hexadecimal,
  \<open>ba7816bf 8f01cfea 414140de 5dae2223 b00361a3 96177a9c b410ff61 f20015ad\<close>, whatever
  the static context held before.
\<close>

theorem sha256_abc:
  assumes "ctx_ok ctx0"
  shows "hex (hash_chunks 256 ctx0 [ascii ''abc''])
         = ''ba7816bf8f01cfea414140de5dae2223b00361a396177a9cb410ff61f20015ad''"
  by (simp only: hash_abc [OF assms] digest_abc_256)

theorem sha256_abc_witness:
  "ctx_ok sctx
   \<and> hex (hash_chunks 256 sctx [ascii ''abc''])
       = ''ba7816bf8f01cfea414140de5dae2223b00361a396177a9cb410ff61f20015ad''"
  using ctx_ok_sctx sha256_abc [OF ctx_ok_sctx] by (rule conjI)

text \<open>
  Claim C5, as amended. \<^verbatim>\<open>Hash_Init(256)\<close> followed by \<^verbatim>\<open>Hash_Final\<close>, with no
  \<^verbatim>\<open>Hash_Update\<close> in between or only updates of size zero, is accepted and writes the 32
  bytes that read \<open>e3b0c442 98fc1c14 9afbf4c8 996fb924 27ae41e4 649b934c a495991b 7852b855\<close>
  in hexadecimal, 64 digits.
\<close>

theorem sha256_empty_message:
  assumes "ctx_ok ctx0" "\<forall>c\<in>set cs. c = []"
  shows "hex (hash_chunks 256 ctx0 cs)
         = ''e3b0c44298fc1c149afbf4c8996fb92427ae41e4649b934ca495991b7852b855''"
  by (simp only: hash_empty [OF assms] digest_empty_256)

theorem sha256_empty_message_witness:
  "ctx_ok sctx
   \<and> hex (hash_chunks 256 sctx [])
       = ''e3b0c44298fc1c149afbf4c8996fb92427ae41e4649b934ca495991b7852b855''
   \<and> hex (hash_chunks 256 sctx [[], []])
       = ''e3b0c44298fc1c149afbf4c8996fb92427ae41e4649b934ca495991b7852b855''"
proof -
  have a: "\<forall>c\<in>set ([] :: uint8_t list list). c = []" by simp
  have b: "\<forall>c\<in>set [[], [] :: uint8_t list]. c = []" by simp
  show ?thesis
    using ctx_ok_sctx sha256_empty_message [OF ctx_ok_sctx a] sha256_empty_message [OF ctx_ok_sctx b]
    by (intro conjI)
qed

text \<open>
  The value the specification calls canonical for the empty message has 63 digits, the
  last one missing, and is not the hexadecimal form of the digest.
\<close>

theorem sha256_empty_canonical_counterexample:
  "hex (hash_chunks 256 sctx [])
   \<noteq> ''e3b0c44298fc1c149afbf4c8996fb92427ae41e4649b934ca495991b7852b85''"
proof -
  have a: "\<forall>c\<in>set ([] :: uint8_t list list). c = []" by simp
  have "hex (hash_chunks 256 sctx [])
        = ''e3b0c44298fc1c149afbf4c8996fb92427ae41e4649b934ca495991b7852b855''"
    by (simp only: hash_empty [OF ctx_ok_sctx a] digest_empty_256)
  then show ?thesis by simp
qed

text \<open>
  Claim C6, as amended. After \<^verbatim>\<open>Hash_Init(224)\<close>, \<^verbatim>\<open>Hash_Update\<close> on the three bytes of
  \<open>abc\<close> and \<^verbatim>\<open>Hash_Final\<close>, the 28 bytes written to the buffer read, in hexadecimal,
  \<open>23097d22 3405d822 8642a477 bda255b3 2aadbce4 bda0b3f7 e36c9da7\<close>, 56 digits.
\<close>

theorem sha224_abc:
  assumes "ctx_ok ctx0"
  shows "length (hash_chunks 224 ctx0 [ascii ''abc'']) = 28
         \<and> hex (hash_chunks 224 ctx0 [ascii ''abc''])
             = ''23097d223405d8228642a477bda255b32aadbce4bda0b3f7e36c9da7''"
proof -
  have "length (absorb (H0 224) (pad_message [0x61, 0x62, 0x63])) = 8"
    by (rule length_absorb) simp
  then have "length (sha2_digest 224 [0x61, 0x62, 0x63]) = 28"
    by (simp add: sha2_digest_def)
  then show ?thesis
    by (simp only: hash_abc [OF assms] digest_abc_224)
qed

theorem sha224_abc_witness:
  "ctx_ok sctx
   \<and> length (hash_chunks 224 sctx [ascii ''abc'']) = 28
   \<and> hex (hash_chunks 224 sctx [ascii ''abc''])
       = ''23097d223405d8228642a477bda255b32aadbce4bda0b3f7e36c9da7''"
  using ctx_ok_sctx sha224_abc [OF ctx_ok_sctx] by (rule conjI)

text \<open>
  The value the specification gives for SHA-224 of \<open>abc\<close> has 55 digits, the last one
  missing; no 28-byte digest has it as its hexadecimal form, and this one does not.
\<close>

theorem sha224_abc_counterexample:
  "hex (hash_chunks 224 sctx [ascii ''abc''])
   \<noteq> ''23097d223405d8228642a477bda255b32aadbce4bda0b3f7e36c9da''"
proof -
  have "hex (hash_chunks 224 sctx [ascii ''abc''])
        = ''23097d223405d8228642a477bda255b32aadbce4bda0b3f7e36c9da7''"
    by (simp only: hash_abc [OF ctx_ok_sctx] digest_abc_224)
  then show ?thesis by simp
qed

end
